theory Spec2Isabelle
  imports Main
begin

section \<open>The lock-based queue of \<^verbatim>\<open>queue.hpp\<close>\<close>

text \<open>
  \<^verbatim>\<open>threadsafe_queue<T>\<close> is a singly linked list of heap nodes with a dummy node at the
  tail. \<^verbatim>\<open>head\<close> is a \<^verbatim>\<open>unique_ptr<node>\<close>, \<^verbatim>\<open>tail\<close> a raw \<^verbatim>\<open>node*\<close>; both are modelled
  as optional addresses (\<open>None\<close> is the null pointer). The nodes live in an explicit store:
  a list indexed by address, where \<open>new node\<close> appends a cell and a destroyed node leaves
  \<open>None\<close> behind. \<^verbatim>\<open>node::data\<close> is a \<^verbatim>\<open>shared_ptr<T>\<close> (null or a value), \<^verbatim>\<open>node::next\<close> a
  \<^verbatim>\<open>unique_ptr<node>\<close> (written \<open>nxt\<close>).

  Each member function runs its critical sections atomically here: the two mutexes are
  not part of the state. Dereferencing a null pointer is undefined behaviour in C++ and
  is a fault value of the model (\<open>Invalid_pointer\<close> for a pointer to a destroyed node), as
  is a thrown \<^verbatim>\<open>std::logic_error\<close> or \<^verbatim>\<open>std::bad_optional_access\<close>.
\<close>

type_synonym addr = nat

record 'a node =
  data :: "'a option"
  nxt :: "addr option"

type_synonym 'a heap = "'a node option list"

datatype fault = Logic_error string | Null_dereference | Invalid_pointer | Bad_optional_access

definition node_at :: "'a heap \<Rightarrow> addr \<Rightarrow> 'a node option" where
  "node_at h a = (if a < length h then h ! a else None)"

text \<open>\<^verbatim>\<open>new node\<close>: a value-initialised node (both pointers null) at a fresh address.\<close>

definition new_node :: "'a heap \<Rightarrow> addr \<times> 'a heap" where
  "new_node h = (length h, h @ [Some \<lparr>data = None, nxt = None\<rparr>])"

record 'a threadsafe_queue =
  nodes :: "'a heap"
  head :: "addr option"
  tail :: "addr option"

text \<open>The constructor: \<^verbatim>\<open>head(new node), tail(head.get())\<close>.\<close>

definition threadsafe_queue_new :: "'a threadsafe_queue" where
  "threadsafe_queue_new =
     (let (p, h) = new_node [] in \<lparr>nodes = h, head = Some p, tail = Some p\<rparr>)"

definition get_tail :: "'a threadsafe_queue \<Rightarrow> addr option" where
  "get_tail q = tail q"

text \<open>
  \<^verbatim>\<open>pop_head\<close>: \<^verbatim>\<open>old_head = move(head); head = move(old_head->next); return old_head\<close>.
  The moved-from \<^verbatim>\<open>next\<close> of the detached node is null afterwards.
\<close>

definition pop_head :: "'a threadsafe_queue \<Rightarrow> fault + (addr \<times> 'a threadsafe_queue)" where
  "pop_head q =
     (case head q of
        None \<Rightarrow> Inl Null_dereference
      | Some old_head \<Rightarrow>
          (case node_at (nodes q) old_head of
             None \<Rightarrow> Inl Invalid_pointer
           | Some n \<Rightarrow>
               Inr (old_head,
                    q\<lparr>nodes := (nodes q)[old_head := Some (n\<lparr>nxt := None\<rparr>)],
                      head := nxt n\<rparr>)))"

text \<open>The wait predicate of \<^verbatim>\<open>wait_for_data\<close>: \<^verbatim>\<open>head.get() != get_tail()\<close>.\<close>

definition data_ready :: "'a threadsafe_queue \<Rightarrow> bool" where
  "data_ready q = (head q \<noteq> get_tail q)"

text \<open>
  \<^verbatim>\<open>data_cond.wait(head_lock, pred)\<close> is, by the C++ standard,
  \<^verbatim>\<open>while (!pred()) data_cond.wait(head_lock);\<close>. In a run of the calling thread alone
  nothing changes the queue between two evaluations of the predicate, so the loop
  re-evaluates it on the same state; \<open>None\<close> is the call that never returns.
\<close>

partial_function (option) wait_for_data :: "'a threadsafe_queue \<Rightarrow> unit option" where
  "wait_for_data q = (if data_ready q then Some () else wait_for_data q)"

definition wait_pop_head ::
  "'a threadsafe_queue \<Rightarrow> (fault + (addr \<times> 'a threadsafe_queue)) option" where
  "wait_pop_head q =
     (case wait_for_data q of None \<Rightarrow> None | Some head_lock \<Rightarrow> Some (pop_head q))"

text \<open>
  The overload \<^verbatim>\<open>wait_pop_head(T& value)\<close> first executes
  \<^verbatim>\<open>value = std::move(*head->data)\<close>; the value assigned is returned with the node.
\<close>

definition head_value :: "'a threadsafe_queue \<Rightarrow> fault + 'a" where
  "head_value q =
     (case head q of
        None \<Rightarrow> Inl Null_dereference
      | Some a \<Rightarrow>
          (case node_at (nodes q) a of
             None \<Rightarrow> Inl Invalid_pointer
           | Some n \<Rightarrow> (case data n of None \<Rightarrow> Inl Null_dereference | Some v \<Rightarrow> Inr v)))"

definition wait_pop_head_value ::
  "'a threadsafe_queue \<Rightarrow> (fault + ('a \<times> addr \<times> 'a threadsafe_queue)) option" where
  "wait_pop_head_value q =
     (case wait_for_data q of
        None \<Rightarrow> None
      | Some head_lock \<Rightarrow>
          Some (case head_value q of
                  Inl f \<Rightarrow> Inl f
                | Inr v \<Rightarrow>
                    (case pop_head q of Inl f \<Rightarrow> Inl f | Inr (a, q') \<Rightarrow> Inr (v, a, q'))))"

definition try_pop_head ::
  "'a threadsafe_queue \<Rightarrow> fault + (addr option \<times> 'a threadsafe_queue)" where
  "try_pop_head q =
     (if head q = get_tail q then Inr (None, q)
      else (case pop_head q of Inl f \<Rightarrow> Inl f | Inr (a, q') \<Rightarrow> Inr (Some a, q')))"

definition try_pop_head_value ::
  "'a threadsafe_queue \<Rightarrow> fault + (('a \<times> addr) option \<times> 'a threadsafe_queue)" where
  "try_pop_head_value q =
     (if head q = get_tail q then Inr (None, q)
      else (case head_value q of
              Inl f \<Rightarrow> Inl f
            | Inr v \<Rightarrow>
                (case pop_head q of Inl f \<Rightarrow> Inl f | Inr (a, q') \<Rightarrow> Inr (Some (v, a), q'))))"

text \<open>
  \<^verbatim>\<open>push\<close>: the new dummy node is allocated first; under the tail lock the old tail
  receives the value and the link, and \<^verbatim>\<open>tail\<close> moves to the new node. The closing
  \<^verbatim>\<open>notify_one\<close> changes no data. (Assigning \<^verbatim>\<open>tail->next\<close> would destroy a previous
  successor; the tail's \<^verbatim>\<open>next\<close> is null in every state the constructor and the member
  functions produce, see \<open>queue_inv\<close>, so nothing is released.)
\<close>

definition push :: "'a \<Rightarrow> 'a threadsafe_queue \<Rightarrow> fault + 'a threadsafe_queue" where
  "push new_value q =
     (let (ptr, h) = new_node (nodes q) in
      case tail q of
        None \<Rightarrow> Inl Null_dereference
      | Some t \<Rightarrow>
          (case node_at h t of
             None \<Rightarrow> Inl Invalid_pointer
           | Some n \<Rightarrow>
               Inr (q\<lparr>nodes := h[t := Some (n\<lparr>data := Some new_value, nxt := Some ptr\<rparr>)],
                     tail := Some ptr\<rparr>)))"

text \<open>
  The detached node is owned by a local \<^verbatim>\<open>unique_ptr\<close> of the caller and destroyed when
  the caller returns; its \<^verbatim>\<open>next\<close> is null by then, so exactly one node is released.
\<close>

definition release :: "addr \<Rightarrow> 'a threadsafe_queue \<Rightarrow> 'a threadsafe_queue" where
  "release a q = q\<lparr>nodes := (nodes q)[a := None]\<rparr>"

text \<open>\<^verbatim>\<open>shared_ptr<T> wait_and_pop()\<close>: returns \<^verbatim>\<open>old_head->data\<close>, a possibly null pointer.\<close>

definition wait_and_pop ::
  "'a threadsafe_queue \<Rightarrow> (fault + ('a option \<times> 'a threadsafe_queue)) option" where
  "wait_and_pop q =
     (case wait_pop_head q of
        None \<Rightarrow> None
      | Some (Inl f) \<Rightarrow> Some (Inl f)
      | Some (Inr (old_head, q')) \<Rightarrow>
          (case node_at (nodes q') old_head of
             None \<Rightarrow> Some (Inl Invalid_pointer)
           | Some n \<Rightarrow> Some (Inr (data n, release old_head q'))))"

text \<open>\<^verbatim>\<open>void wait_and_pop(T& value)\<close>: the result is the value stored into \<^verbatim>\<open>value\<close>.\<close>

definition wait_and_pop_value ::
  "'a threadsafe_queue \<Rightarrow> (fault + ('a \<times> 'a threadsafe_queue)) option" where
  "wait_and_pop_value q =
     (case wait_pop_head_value q of
        None \<Rightarrow> None
      | Some (Inl f) \<Rightarrow> Some (Inl f)
      | Some (Inr (v, old_head, q')) \<Rightarrow> Some (Inr (v, release old_head q')))"

text \<open>
  \<^verbatim>\<open>shared_ptr<T> try_pop()\<close>:
  \<^verbatim>\<open>return old_head ? old_head->data : std::shared_ptr<T>()\<close>.
\<close>

definition try_pop :: "'a threadsafe_queue \<Rightarrow> fault + ('a option \<times> 'a threadsafe_queue)" where
  "try_pop q =
     (case try_pop_head q of
        Inl f \<Rightarrow> Inl f
      | Inr (None, q') \<Rightarrow> Inr (None, q')
      | Inr (Some old_head, q') \<Rightarrow>
          (case node_at (nodes q') old_head of
             None \<Rightarrow> Inl Invalid_pointer
           | Some n \<Rightarrow> Inr (data n, release old_head q')))"

text \<open>
  \<^verbatim>\<open>bool try_pop(T& value)\<close>: \<open>Some v\<close> is the result \<^verbatim>\<open>true\<close> with \<open>v\<close> stored into
  \<^verbatim>\<open>value\<close>, \<open>None\<close> the result \<^verbatim>\<open>false\<close> with \<^verbatim>\<open>value\<close> untouched.
\<close>

definition try_pop_value ::
  "'a threadsafe_queue \<Rightarrow> fault + ('a option \<times> 'a threadsafe_queue)" where
  "try_pop_value q =
     (case try_pop_head_value q of
        Inl f \<Rightarrow> Inl f
      | Inr (None, q') \<Rightarrow> Inr (None, q')
      | Inr (Some (v, old_head), q') \<Rightarrow> Inr (Some v, release old_head q'))"

definition empty_queue :: "'a threadsafe_queue \<Rightarrow> bool" where
  "empty_queue q = (head q = get_tail q)"


section \<open>The channel core and its handles\<close>

text \<open>
  \<^verbatim>\<open>Channel<T>\<close> owns the queue and the flag \<^verbatim>\<open>_closed\<close> (here \<open>closed_flag\<close>). The two
  \<^verbatim>\<open>send\<close> overloads differ only in how the argument is passed.
  \<^verbatim>\<open>recv\<close> and \<^verbatim>\<open>try_recv\<close> dereference the \<^verbatim>\<open>shared_ptr\<close> the queue returns and wrap the
  \<^verbatim>\<open>T\<close> into a \<^verbatim>\<open>std::optional<T>\<close>.
\<close>

record 'a Channel =
  que :: "'a threadsafe_queue"
  closed_flag :: bool

definition Channel_new :: "'a Channel" where
  "Channel_new = \<lparr>que = threadsafe_queue_new, closed_flag = False\<rparr>"

definition Channel_send :: "'a \<Rightarrow> 'a Channel \<Rightarrow> fault + 'a Channel" where
  "Channel_send val ch =
     (case push val (que ch) of Inl f \<Rightarrow> Inl f | Inr q' \<Rightarrow> Inr (ch\<lparr>que := q'\<rparr>))"

definition Channel_recv :: "'a Channel \<Rightarrow> (fault + ('a option \<times> 'a Channel)) option" where
  "Channel_recv ch =
     (case wait_and_pop (que ch) of
        None \<Rightarrow> None
      | Some (Inl f) \<Rightarrow> Some (Inl f)
      | Some (Inr (p, q')) \<Rightarrow>
          (case p of
             None \<Rightarrow> Some (Inl Null_dereference)
           | Some v \<Rightarrow> Some (Inr (Some v, ch\<lparr>que := q'\<rparr>))))"

definition Channel_try_recv :: "'a Channel \<Rightarrow> fault + ('a option \<times> 'a Channel)" where
  "Channel_try_recv ch =
     (case try_pop (que ch) of
        Inl f \<Rightarrow> Inl f
      | Inr (p, q') \<Rightarrow>
          (case p of
             None \<Rightarrow> Inl Null_dereference
           | Some v \<Rightarrow> Inr (Some v, ch\<lparr>que := q'\<rparr>)))"

definition Channel_close_channel :: "'a Channel \<Rightarrow> 'a Channel" where
  "Channel_close_channel ch = ch\<lparr>closed_flag := True\<rparr>"

definition Channel_closed :: "'a Channel \<Rightarrow> bool" where
  "Channel_closed ch = closed_flag ch"

text \<open>
  The handles share the core through \<^verbatim>\<open>std::shared_ptr<Channel<T>>\<close>. The cores live in
  a store indexed by address; a non-null \<^verbatim>\<open>shared_ptr\<close> always points to a live core, so
  the store is total. A handle is its pointer, \<open>None\<close> once moved from.
\<close>

type_synonym 'a store = "nat \<Rightarrow> 'a Channel"

record Sender =
  channel :: "nat option"

record Receiver =
  channel :: "nat option"

text \<open>The move constructors: the new handle takes the pointer, the source is left null.\<close>

definition Sender_move :: "Sender \<Rightarrow> Sender \<times> Sender" where
  "Sender_move s = (s, s\<lparr>Sender.channel := None\<rparr>)"

definition Receiver_move :: "Receiver \<Rightarrow> Receiver \<times> Receiver" where
  "Receiver_move r = (r, r\<lparr>Receiver.channel := None\<rparr>)"

definition Sender_moved :: "Sender \<Rightarrow> fault + unit" where
  "Sender_moved s =
     (if Sender.channel s = None then Inl (Logic_error ''Sender has been moved.'')
      else Inr ())"

definition Receiver_moved :: "Receiver \<Rightarrow> fault + unit" where
  "Receiver_moved r =
     (if Receiver.channel r = None then Inl (Logic_error ''Receiver has been moved.'')
      else Inr ())"

text \<open>\<^verbatim>\<open>Sender::send\<close> returns \<^verbatim>\<open>*this\<close>; the result here is the store it leaves.\<close>

definition Sender_send :: "'a \<Rightarrow> Sender \<Rightarrow> 'a store \<Rightarrow> fault + 'a store" where
  "Sender_send val s \<sigma> =
     (case Sender_moved s of
        Inl f \<Rightarrow> Inl f
      | Inr _ \<Rightarrow>
          (case Sender.channel s of
             None \<Rightarrow> Inl Null_dereference
           | Some c \<Rightarrow>
               (case Channel_send val (\<sigma> c) of
                  Inl f \<Rightarrow> Inl f
                | Inr ch' \<Rightarrow> Inr (\<sigma>(c := ch')))))"

definition Sender_close :: "Sender \<Rightarrow> 'a store \<Rightarrow> fault + 'a store" where
  "Sender_close s \<sigma> =
     (case Sender_moved s of
        Inl f \<Rightarrow> Inl f
      | Inr _ \<Rightarrow>
          (case Sender.channel s of
             None \<Rightarrow> Inl Null_dereference
           | Some c \<Rightarrow> Inr (\<sigma>(c := Channel_close_channel (\<sigma> c)))))"

definition Sender_closed :: "Sender \<Rightarrow> 'a store \<Rightarrow> fault + bool" where
  "Sender_closed s \<sigma> =
     (case Sender_moved s of
        Inl f \<Rightarrow> Inl f
      | Inr _ \<Rightarrow>
          (case Sender.channel s of
             None \<Rightarrow> Inl Null_dereference
           | Some c \<Rightarrow> Inr (Channel_closed (\<sigma> c))))"

definition Receiver_recv ::
  "Receiver \<Rightarrow> 'a store \<Rightarrow> (fault + ('a option \<times> 'a store)) option" where
  "Receiver_recv r \<sigma> =
     (case Receiver_moved r of
        Inl f \<Rightarrow> Some (Inl f)
      | Inr _ \<Rightarrow>
          (case Receiver.channel r of
             None \<Rightarrow> Some (Inl Null_dereference)
           | Some c \<Rightarrow>
               (case Channel_recv (\<sigma> c) of
                  None \<Rightarrow> None
                | Some (Inl f) \<Rightarrow> Some (Inl f)
                | Some (Inr (x, ch')) \<Rightarrow> Some (Inr (x, \<sigma>(c := ch'))))))"

definition Receiver_try_recv ::
  "Receiver \<Rightarrow> 'a store \<Rightarrow> fault + ('a option \<times> 'a store)" where
  "Receiver_try_recv r \<sigma> =
     (case Receiver_moved r of
        Inl f \<Rightarrow> Inl f
      | Inr _ \<Rightarrow>
          (case Receiver.channel r of
             None \<Rightarrow> Inl Null_dereference
           | Some c \<Rightarrow>
               (case Channel_try_recv (\<sigma> c) of
                  Inl f \<Rightarrow> Inl f
                | Inr (x, ch') \<Rightarrow> Inr (x, \<sigma>(c := ch')))))"

definition Receiver_closed :: "Receiver \<Rightarrow> 'a store \<Rightarrow> fault + bool" where
  "Receiver_closed r \<sigma> =
     (case Receiver_moved r of
        Inl f \<Rightarrow> Inl f
      | Inr _ \<Rightarrow>
          (case Receiver.channel r of
             None \<Rightarrow> Inl Null_dereference
           | Some c \<Rightarrow> Inr (Channel_closed (\<sigma> c))))"

text \<open>
  \<^verbatim>\<open>make_channel\<close>: \<open>c\<close> is the address \<^verbatim>\<open>new Channel<T>()\<close> returns; both handles of the
  tuple point to it.
\<close>

definition make_channel :: "nat \<Rightarrow> 'a store \<Rightarrow> Sender \<times> Receiver \<times> 'a store" where
  "make_channel c \<sigma> =
     (\<lparr>Sender.channel = Some c\<rparr>, \<lparr>Receiver.channel = Some c\<rparr>, \<sigma>(c := Channel_new))"

section \<open>The iterator of the consumer handle\<close>

text \<open>
  \<^verbatim>\<open>Receiver<T>::iterator\<close> holds a raw pointer to the handle and an optional prefetched
  value. The pointer is modelled by the handle it points to (the handle is not relocated
  while it is being iterated); \<open>None\<close> is \<^verbatim>\<open>nullptr\<close>, the end position.
  \<^verbatim>\<open>current.value()\<close> on an empty optional throws \<^verbatim>\<open>std::bad_optional_access\<close>.
\<close>

record 'a iterator =
  receiver :: "Receiver option"
  current :: "'a option"

definition iterator_end :: "'a iterator" where
  "iterator_end = \<lparr>receiver = None, current = None\<rparr>"

text \<open>The \<^verbatim>\<open>while(true)\<close> loop of \<^verbatim>\<open>iterator::next\<close>; \<open>None\<close> is the call that never returns.\<close>

partial_function (option) next_loop ::
  "'a iterator \<Rightarrow> 'a store \<Rightarrow> (fault + ('a iterator \<times> 'a store)) option" where
  "next_loop it \<sigma> =
     (case receiver it of
        None \<Rightarrow> Some (Inl Null_dereference)
      | Some r \<Rightarrow>
          (case Receiver_closed r \<sigma> of
             Inl f \<Rightarrow> Some (Inl f)
           | Inr c \<Rightarrow>
               if c then Some (Inr (it\<lparr>receiver := None, current := None\<rparr>, \<sigma>))
               else
                 (case Receiver_recv r \<sigma> of
                    None \<Rightarrow> None
                  | Some (Inl f) \<Rightarrow> Some (Inl f)
                  | Some (Inr (tmp, \<sigma>')) \<Rightarrow>
                      (case tmp of
                         None \<Rightarrow> next_loop it \<sigma>'
                       | Some v \<Rightarrow> Some (Inr (it\<lparr>current := Some v\<rparr>, \<sigma>'))))))"

definition iterator_next ::
  "'a iterator \<Rightarrow> 'a store \<Rightarrow> (fault + ('a iterator \<times> 'a store)) option" where
  "iterator_next it \<sigma> =
     (if receiver it = None then Some (Inr (it, \<sigma>)) else next_loop it \<sigma>)"

text \<open>\<^verbatim>\<open>iterator(Receiver<T>& receiver)\<close>.\<close>

definition iterator_from ::
  "Receiver \<Rightarrow> 'a store \<Rightarrow> (fault + ('a iterator \<times> 'a store)) option" where
  "iterator_from r \<sigma> =
     (let it = \<lparr>receiver = Some r, current = None\<rparr> in
      case Receiver_closed r \<sigma> of
        Inl f \<Rightarrow> Some (Inl f)
      | Inr c \<Rightarrow>
          if c then Some (Inr (it\<lparr>receiver := None\<rparr>, \<sigma>)) else iterator_next it \<sigma>)"

text \<open>\<^verbatim>\<open>operator*\<close>, \<^verbatim>\<open>operator++\<close>, \<^verbatim>\<open>operator==\<close>, \<^verbatim>\<open>operator!=\<close>, \<^verbatim>\<open>begin\<close>, \<^verbatim>\<open>end\<close>.\<close>

definition iterator_deref :: "'a iterator \<Rightarrow> fault + 'a" where
  "iterator_deref it =
     (case current it of None \<Rightarrow> Inl Bad_optional_access | Some v \<Rightarrow> Inr v)"

definition iterator_inc ::
  "'a iterator \<Rightarrow> 'a store \<Rightarrow> (fault + ('a iterator \<times> 'a store)) option" where
  "iterator_inc it \<sigma> = iterator_next it \<sigma>"

definition iterator_eq :: "'a iterator \<Rightarrow> 'a iterator \<Rightarrow> bool" where
  "iterator_eq it other =
     (if receiver it = None \<and> receiver other = None then True else False)"

definition iterator_neq :: "'a iterator \<Rightarrow> 'a iterator \<Rightarrow> bool" where
  "iterator_neq it other = (\<not> iterator_eq it other)"

definition Receiver_begin ::
  "Receiver \<Rightarrow> 'a store \<Rightarrow> (fault + ('a iterator \<times> 'a store)) option" where
  "Receiver_begin r \<sigma> = iterator_from r \<sigma>"

definition Receiver_end :: "'a iterator" where
  "Receiver_end = iterator_end"


section \<open>Sequences of calls\<close>

text \<open>
  Client code the properties speak about: a chain of \<^verbatim>\<open>send\<close> calls on one producer
  handle, \<open>n\<close> successive \<^verbatim>\<open>recv\<close> calls collecting the returned optionals, \<open>n\<close> rounds of
  \<^verbatim>\<open>*it; ++it\<close>, and the loop \<^verbatim>\<open>for (it = begin(); it != end(); ++it) use(*it)\<close>.
\<close>

fun send_all :: "'a list \<Rightarrow> Sender \<Rightarrow> 'a store \<Rightarrow> fault + 'a store" where
  "send_all [] s \<sigma> = Inr \<sigma>"
| "send_all (v # vs) s \<sigma> =
     (case Sender_send v s \<sigma> of Inl f \<Rightarrow> Inl f | Inr \<sigma>' \<Rightarrow> send_all vs s \<sigma>')"

fun recv_n ::
  "nat \<Rightarrow> Receiver \<Rightarrow> 'a store \<Rightarrow> (fault + ('a option list \<times> 'a store)) option" where
  "recv_n 0 r \<sigma> = Some (Inr ([], \<sigma>))"
| "recv_n (Suc n) r \<sigma> =
     (case Receiver_recv r \<sigma> of
        None \<Rightarrow> None
      | Some (Inl f) \<Rightarrow> Some (Inl f)
      | Some (Inr (x, \<sigma>')) \<Rightarrow>
          (case recv_n n r \<sigma>' of
             None \<Rightarrow> None
           | Some (Inl f) \<Rightarrow> Some (Inl f)
           | Some (Inr (xs, \<sigma>'')) \<Rightarrow> Some (Inr (x # xs, \<sigma>''))))"

fun iter_collect ::
  "nat \<Rightarrow> 'a iterator \<Rightarrow> 'a store \<Rightarrow> (fault + ('a list \<times> 'a iterator \<times> 'a store)) option"
where
  "iter_collect 0 it \<sigma> = Some (Inr ([], it, \<sigma>))"
| "iter_collect (Suc n) it \<sigma> =
     (case iterator_deref it of
        Inl f \<Rightarrow> Some (Inl f)
      | Inr v \<Rightarrow>
          (case iterator_inc it \<sigma> of
             None \<Rightarrow> None
           | Some (Inl f) \<Rightarrow> Some (Inl f)
           | Some (Inr (it', \<sigma>')) \<Rightarrow>
               (case iter_collect n it' \<sigma>' of
                  None \<Rightarrow> None
                | Some (Inl f) \<Rightarrow> Some (Inl f)
                | Some (Inr (vs, it'', \<sigma>'')) \<Rightarrow> Some (Inr (v # vs, it'', \<sigma>'')))))"

definition cons_result :: "'a \<Rightarrow> fault + ('a list \<times> 's) \<Rightarrow> fault + ('a list \<times> 's)" where
  "cons_result v res = (case res of Inl f \<Rightarrow> Inl f | Inr (vs, \<sigma>) \<Rightarrow> Inr (v # vs, \<sigma>))"

partial_function (option) for_each ::
  "'a iterator \<Rightarrow> 'a store \<Rightarrow> (fault + ('a list \<times> 'a store)) option" where
  "for_each it \<sigma> =
     (if iterator_neq it Receiver_end then
        (case iterator_deref it of
           Inl f \<Rightarrow> Some (Inl f)
         | Inr v \<Rightarrow>
             (case iterator_inc it \<sigma> of
                None \<Rightarrow> None
              | Some (Inl f) \<Rightarrow> Some (Inl f)
              | Some (Inr (it', \<sigma>')) \<Rightarrow>
                  Option.bind (for_each it' \<sigma>') (\<lambda>res. Some (cons_result v res))))
      else Some (Inr ([], \<sigma>)))"

definition iterate :: "Receiver \<Rightarrow> 'a store \<Rightarrow> (fault + ('a list \<times> 'a store)) option" where
  "iterate r \<sigma> =
     (case Receiver_begin r \<sigma> of
        None \<Rightarrow> None
      | Some (Inl f) \<Rightarrow> Some (Inl f)
      | Some (Inr (it, \<sigma>')) \<Rightarrow> for_each it \<sigma>')"

text \<open>
  The scenario "send 1..5, close, then iterate" on a new channel; the result is the list
  of values the loop body saw.
\<close>

definition five_sent_then_closed :: "(fault + nat list) option" where
  "five_sent_then_closed =
     (let (tx, rx, \<sigma>0) = make_channel 0 (\<lambda>_. Channel_new) in
      case send_all [1, 2, 3, 4, 5] tx \<sigma>0 of
        Inl f \<Rightarrow> Some (Inl f)
      | Inr \<sigma>1 \<Rightarrow>
          (case Sender_close tx \<sigma>1 of
             Inl f \<Rightarrow> Some (Inl f)
           | Inr \<sigma>2 \<Rightarrow>
               (case iterate rx \<sigma>2 of
                  None \<Rightarrow> None
                | Some (Inl f) \<Rightarrow> Some (Inl f)
                | Some (Inr (vs, \<sigma>3)) \<Rightarrow> Some (Inr vs))))"

text \<open>
  The scenario "send 1, 2, 3, close, then iterate" on a new channel, and the same with
  three \<^verbatim>\<open>recv\<close> calls in place of the iteration.
\<close>

definition three_sent_closed_iterated :: "(fault + nat list) option" where
  "three_sent_closed_iterated =
     (let (tx, rx, \<sigma>0) = make_channel 0 (\<lambda>_. Channel_new) in
      case send_all [1, 2, 3] tx \<sigma>0 of
        Inl f \<Rightarrow> Some (Inl f)
      | Inr \<sigma>1 \<Rightarrow>
          (case Sender_close tx \<sigma>1 of
             Inl f \<Rightarrow> Some (Inl f)
           | Inr \<sigma>2 \<Rightarrow>
               (case iterate rx \<sigma>2 of
                  None \<Rightarrow> None
                | Some (Inl f) \<Rightarrow> Some (Inl f)
                | Some (Inr (vs, \<sigma>3)) \<Rightarrow> Some (Inr vs))))"

definition three_sent_closed_received :: "(fault + nat option list) option" where
  "three_sent_closed_received =
     (let (tx, rx, \<sigma>0) = make_channel 0 (\<lambda>_. Channel_new) in
      case send_all [1, 2, 3] tx \<sigma>0 of
        Inl f \<Rightarrow> Some (Inl f)
      | Inr \<sigma>1 \<Rightarrow>
          (case Sender_close tx \<sigma>1 of
             Inl f \<Rightarrow> Some (Inl f)
           | Inr \<sigma>2 \<Rightarrow>
               (case recv_n 3 rx \<sigma>2 of
                  None \<Rightarrow> None
                | Some (Inl f) \<Rightarrow> Some (Inl f)
                | Some (Inr (xs, \<sigma>3)) \<Rightarrow> Some (Inr xs))))"

section \<open>A receiver blocked in the wait, and the other threads\<close>

text \<open>
  The calling thread of \<^verbatim>\<open>recv\<close> is inside \<^verbatim>\<open>data_cond.wait(head_lock, pred)\<close>
  (\<open>waiting\<close>). Whenever a wakeup reaches it, a notification or a spurious one
  (\<open>Spurious_wakeup\<close> stands for both), it evaluates the predicate once and leaves the
  wait exactly if it holds. Another thread may meanwhile send or close.
  \<^verbatim>\<open>push\<close> ends with \<^verbatim>\<open>data_cond.notify_one()\<close>, called without \<^verbatim>\<open>head_mutex\<close>: the
  notification can fall between the receiver's test of the predicate and its blocking
  and be lost, so a send by itself changes the queue only and the wakeup, when it
  arrives, is an action of its own. \<^verbatim>\<open>close_channel\<close> is the single assignment
  \<^verbatim>\<open>_closed = true\<close> and notifies nobody.
\<close>

record 'a system =
  core :: "'a Channel"
  waiting :: bool

datatype 'a action = Do_send 'a | Do_close | Spurious_wakeup

definition wakeup :: "'a system \<Rightarrow> 'a system" where
  "wakeup s = s\<lparr>waiting := waiting s \<and> \<not> data_ready (que (core s))\<rparr>"

fun act :: "'a action \<Rightarrow> 'a system \<Rightarrow> fault + 'a system" where
  "act (Do_send v) s =
     (case Channel_send v (core s) of
        Inl f \<Rightarrow> Inl f
      | Inr ch' \<Rightarrow> Inr (s\<lparr>core := ch'\<rparr>))"
| "act Do_close s = Inr (s\<lparr>core := Channel_close_channel (core s)\<rparr>)"
| "act Spurious_wakeup s = Inr (wakeup s)"

fun run :: "'a action list \<Rightarrow> 'a system \<Rightarrow> fault + 'a system" where
  "run [] s = Inr s"
| "run (a # as) s = (case act a s of Inl f \<Rightarrow> Inl f | Inr s' \<Rightarrow> run as s')"

fun is_send :: "'a action \<Rightarrow> bool" where
  "is_send (Do_send v) = True"
| "is_send Do_close = False"
| "is_send Spurious_wakeup = False"

section \<open>The representation invariant of the queue\<close>

text \<open>
  \<open>seg h a cs t\<close>: following \<^verbatim>\<open>next\<close> from \<open>a\<close> visits the cells \<open>cs\<close> (address and stored
  value of each) and arrives at \<open>t\<close>, which is none of them. \<open>queue_inv q cs\<close>: \<^verbatim>\<open>head\<close> and
  \<^verbatim>\<open>tail\<close> are non-null, the cells from \<^verbatim>\<open>head\<close> up to the dummy node at \<^verbatim>\<open>tail\<close> are
  \<open>cs\<close>, all at different addresses, and the dummy node is allocated and holds two null
  pointers. The buffered values are \<open>map snd cs\<close>, front first.
\<close>

primrec seg :: "'a heap \<Rightarrow> addr \<Rightarrow> (addr \<times> 'a) list \<Rightarrow> addr \<Rightarrow> bool" where
  "seg h a [] t = (a = t)"
| "seg h a (c # cs) t =
     (a = fst c \<and> a \<noteq> t \<and>
      (case node_at h a of
         None \<Rightarrow> False
       | Some n \<Rightarrow>
           data n = Some (snd c) \<and>
           (case nxt n of None \<Rightarrow> False | Some b \<Rightarrow> seg h b cs t)))"

definition queue_inv :: "'a threadsafe_queue \<Rightarrow> (addr \<times> 'a) list \<Rightarrow> bool" where
  "queue_inv q cs =
     (case head q of
        None \<Rightarrow> False
      | Some a \<Rightarrow>
          (case tail q of
             None \<Rightarrow> False
           | Some t \<Rightarrow>
               seg (nodes q) a cs t \<and> distinct (map fst cs) \<and>
               node_at (nodes q) t = Some \<lparr>data = None, nxt = None\<rparr>))"

text \<open>
  The states of a queue object in a run: the constructor's, and any state a member
  function returns into. The two lists record the history: the values pushed so far and
  the values handed out so far (a null \<^verbatim>\<open>shared_ptr\<close> or the result \<^verbatim>\<open>false\<close> hands out
  nothing).
\<close>

definition handed_out :: "'a option \<Rightarrow> 'a list" where
  "handed_out p = (case p of None \<Rightarrow> [] | Some v \<Rightarrow> [v])"

inductive reach :: "'a threadsafe_queue \<Rightarrow> 'a list \<Rightarrow> 'a list \<Rightarrow> bool" where
  reach_new: "reach threadsafe_queue_new [] []"
| reach_push:
    "reach q ins outs \<Longrightarrow> push v q = Inr q' \<Longrightarrow> reach q' (ins @ [v]) outs"
| reach_wait_and_pop:
    "reach q ins outs \<Longrightarrow> wait_and_pop q = Some (Inr (p, q')) \<Longrightarrow>
     reach q' ins (outs @ handed_out p)"
| reach_wait_and_pop_value:
    "reach q ins outs \<Longrightarrow> wait_and_pop_value q = Some (Inr (v, q')) \<Longrightarrow>
     reach q' ins (outs @ [v])"
| reach_try_pop:
    "reach q ins outs \<Longrightarrow> try_pop q = Inr (p, q') \<Longrightarrow> reach q' ins (outs @ handed_out p)"
| reach_try_pop_value:
    "reach q ins outs \<Longrightarrow> try_pop_value q = Inr (p, q') \<Longrightarrow>
     reach q' ins (outs @ handed_out p)"

section \<open>Concrete states\<close>

text \<open>
  A store in which every core is new, and the queue as the constructor and \<^verbatim>\<open>push(7)\<close>
  leave it.
\<close>

definition example_store :: "nat store" where
  "example_store = (\<lambda>c. Channel_new)"

definition example_queue :: "nat threadsafe_queue" where
  "example_queue =
     \<lparr>nodes = [Some \<lparr>data = Some 7, nxt = Some 1\<rparr>, Some \<lparr>data = None, nxt = None\<rparr>],
      head = Some 0, tail = Some 1\<rparr>"

section \<open>The invariant is established and preserved\<close>

lemma seg_cells_allocated: "seg h a cs t \<Longrightarrow> c \<in> set cs \<Longrightarrow> fst c < length h"
  by (induction cs arbitrary: a) (auto simp: node_at_def split: option.splits if_splits)

lemma seg_tail_fresh: "seg h a cs t \<Longrightarrow> c \<in> set cs \<Longrightarrow> fst c \<noteq> t"
  by (induction cs arbitrary: a) (auto split: option.splits)

lemma node_at_update:
  "node_at (h[c := v]) a = (if a = c \<and> c < length h then v else node_at h a)"
  by (simp add: node_at_def)

lemma node_at_append:
  "node_at (h @ [x]) a = (if a = length h then x else node_at h a)"
  by (auto simp: node_at_def nth_append)

lemma seg_update_other:
  "seg h a cs t \<Longrightarrow> \<forall>d \<in> set cs. fst d \<noteq> c \<Longrightarrow> seg (h[c := v]) a cs t"
  by (induction cs arbitrary: a) (auto simp: node_at_update split: option.splits)

lemma node_at_append_old: "node_at h a = Some n \<Longrightarrow> node_at (h @ [x]) a = Some n"
  by (auto simp: node_at_def nth_append split: if_splits)

lemma seg_append_heap: "seg h a cs t \<Longrightarrow> seg (h @ [x]) a cs t"
  by (induction cs arbitrary: a) (auto simp: node_at_append_old split: option.splits)

lemma seg_snoc:
  "seg h a cs t \<Longrightarrow> node_at h t = Some n \<Longrightarrow> data n = Some v \<Longrightarrow> nxt n = Some t' \<Longrightarrow>
   t' \<noteq> t \<Longrightarrow> \<forall>d \<in> set cs. fst d \<noteq> t' \<Longrightarrow> seg h a (cs @ [(t, v)]) t'"
  by (induction cs arbitrary: a) (auto split: option.splits)

lemma queue_inv_new: "queue_inv threadsafe_queue_new []"
  by (simp add: queue_inv_def threadsafe_queue_new_def new_node_def node_at_def)

lemma queue_inv_empty_iff: "queue_inv q cs \<Longrightarrow> (head q = get_tail q) = (cs = [])"
  by (cases cs) (auto simp: queue_inv_def get_tail_def split: option.splits)

lemma push_inv:
  assumes "queue_inv q cs"
  shows "\<exists>t q'. tail q = Some t \<and> push v q = Inr q' \<and> queue_inv q' (cs @ [(t, v)])"
proof -
  from assms obtain a t where ht: "head q = Some a" "tail q = Some t"
    and s: "seg (nodes q) a cs t" and d: "distinct (map fst cs)"
    and nt: "node_at (nodes q) t = Some \<lparr>data = None, nxt = None\<rparr>"
    by (auto simp: queue_inv_def split: option.splits)
  let ?p = "length (nodes q)"
  let ?h1 = "nodes q @ [Some \<lparr>data = None, nxt = None\<rparr>]"
  let ?n = "\<lparr>data = Some v, nxt = Some ?p\<rparr>"
  let ?h2 = "?h1[t := Some ?n]"
  let ?q' = "q\<lparr>nodes := ?h2, tail := Some ?p\<rparr>"
  from nt have tl: "t < ?p" by (auto simp: node_at_def split: if_splits)
  have cl: "\<forall>d \<in> set cs. fst d \<noteq> ?p"
    by (metis less_irrefl seg_cells_allocated[OF s])
  have ct: "\<forall>d \<in> set cs. fst d \<noteq> t" using seg_tail_fresh[OF s] by auto
  have pq: "push v q = Inr ?q'"
    using ht nt tl by (simp add: push_def new_node_def node_at_append)
  have "seg ?h1 a cs t" using s by (rule seg_append_heap)
  then have s2: "seg ?h2 a cs t" using ct by (rule seg_update_other)
  have n2: "node_at ?h2 t = Some ?n" using tl by (simp add: node_at_update)
  have "seg ?h2 a (cs @ [(t, v)]) ?p"
    using s2 n2 _ _ _ cl by (rule seg_snoc) (use tl in auto)
  moreover have "distinct (map fst (cs @ [(t, v)]))" using d ct by auto
  moreover have "node_at ?h2 ?p = Some \<lparr>data = None, nxt = None\<rparr>"
    using tl by (simp add: node_at_update node_at_append)
  ultimately have "queue_inv ?q' (cs @ [(t, v)])"
    using ht by (simp add: queue_inv_def)
  with pq ht show ?thesis by blast
qed

subsection \<open>The blocking wait\<close>

lemma wait_for_data_ready: "data_ready q \<Longrightarrow> wait_for_data q = Some ()"
  by (subst wait_for_data.simps) (simp only: if_True)

lemma wait_for_data_returns:
  assumes "wait_for_data q = Some u"
  shows "data_ready q"
proof (rule wait_for_data.raw_induct[where P = "\<lambda>q u. data_ready q", OF _ assms])
  fix f :: "'a threadsafe_queue \<Rightarrow> unit option" and q' u'
  assume "\<And>x y. f x = Some y \<Longrightarrow> data_ready x"
    and "(if data_ready q' then Some () else f q') = Some u'"
  then show "data_ready q'" by (cases "data_ready q'") auto
qed

lemma wait_for_data_blocks: "\<not> data_ready q \<Longrightarrow> wait_for_data q = None"
  using wait_for_data_returns by (cases "wait_for_data q") auto

lemma pop_head_inv:
  assumes "queue_inv q ((a, v) # cs)"
  shows "\<exists>q'. pop_head q = Inr (a, q') \<and> queue_inv (release a q') cs \<and>
     node_at (nodes q') a = Some \<lparr>data = Some v, nxt = None\<rparr>"
proof -
  from assms obtain t n b where ht: "head q = Some a" "tail q = Some t" and at: "a \<noteq> t"
    and na: "node_at (nodes q) a = Some n" and dn: "data n = Some v" and nn: "nxt n = Some b"
    and s: "seg (nodes q) b cs t" and d: "\<forall>d \<in> set cs. fst d \<noteq> a" "distinct (map fst cs)"
    and nt: "node_at (nodes q) t = Some \<lparr>data = None, nxt = None\<rparr>"
    by (auto simp: queue_inv_def split: option.splits)
  let ?h1 = "(nodes q)[a := Some (n\<lparr>nxt := None\<rparr>)]"
  let ?q' = "q\<lparr>nodes := ?h1, head := Some b\<rparr>"
  from na have al: "a < length (nodes q)" by (auto simp: node_at_def split: if_splits)
  have ph: "pop_head q = Inr (a, ?q')" using ht na nn by (simp add: pop_head_def)
  have "seg ?h1 b cs t" using s d(1) by (rule seg_update_other)
  then have "seg (?h1[a := None]) b cs t" using d(1) by (rule seg_update_other)
  moreover have "node_at (?h1[a := None]) t = Some \<lparr>data = None, nxt = None\<rparr>"
    using nt at by (simp add: node_at_update)
  ultimately have "queue_inv (release a ?q') cs"
    using ht d(2) by (simp add: queue_inv_def release_def)
  moreover have "node_at (nodes ?q') a = Some \<lparr>data = Some v, nxt = None\<rparr>"
    using al dn by (simp add: node_at_update)
  ultimately show ?thesis using ph by blast
qed


lemma queue_inv_ready: "queue_inv q (c # cs) \<Longrightarrow> data_ready q"
  using queue_inv_empty_iff[of q "c # cs"] by (simp add: data_ready_def)

lemma queue_inv_not_ready: "queue_inv q [] \<Longrightarrow> \<not> data_ready q"
  using queue_inv_empty_iff[of q "[]"] by (simp add: data_ready_def)

lemma head_value_inv: "queue_inv q ((a, v) # cs) \<Longrightarrow> head_value q = Inr v"
  by (auto simp: queue_inv_def head_value_def split: option.splits)

lemma wait_and_pop_inv:
  assumes "queue_inv q ((a, v) # cs)"
  shows "\<exists>q'. wait_and_pop q = Some (Inr (Some v, q')) \<and> queue_inv q' cs"
proof -
  from pop_head_inv[OF assms] obtain q1 where "pop_head q = Inr (a, q1)"
    "queue_inv (release a q1) cs" "node_at (nodes q1) a = Some \<lparr>data = Some v, nxt = None\<rparr>"
    by blast
  then show ?thesis
    using wait_for_data_ready[OF queue_inv_ready[OF assms]]
    by (simp add: wait_and_pop_def wait_pop_head_def)
qed

lemma wait_and_pop_empty: "queue_inv q [] \<Longrightarrow> wait_and_pop q = None"
  by (simp add: wait_and_pop_def wait_pop_head_def wait_for_data_blocks queue_inv_not_ready)

lemma wait_and_pop_value_inv:
  assumes "queue_inv q ((a, v) # cs)"
  shows "\<exists>q'. wait_and_pop_value q = Some (Inr (v, q')) \<and> queue_inv q' cs"
proof -
  from pop_head_inv[OF assms] obtain q1 where "pop_head q = Inr (a, q1)"
    "queue_inv (release a q1) cs"
    by blast
  then show ?thesis
    using wait_for_data_ready[OF queue_inv_ready[OF assms]] head_value_inv[OF assms]
    by (simp add: wait_and_pop_value_def wait_pop_head_value_def)
qed

lemma wait_and_pop_value_empty: "queue_inv q [] \<Longrightarrow> wait_and_pop_value q = None"
  by (simp add: wait_and_pop_value_def wait_pop_head_value_def wait_for_data_blocks
      queue_inv_not_ready)

lemma try_pop_inv:
  assumes "queue_inv q ((a, v) # cs)"
  shows "\<exists>q'. try_pop q = Inr (Some v, q') \<and> queue_inv q' cs"
proof -
  from pop_head_inv[OF assms] obtain q1 where "pop_head q = Inr (a, q1)"
    "queue_inv (release a q1) cs" "node_at (nodes q1) a = Some \<lparr>data = Some v, nxt = None\<rparr>"
    by blast
  then show ?thesis
    using queue_inv_empty_iff[OF assms]
    by (simp add: try_pop_def try_pop_head_def)
qed

lemma try_pop_empty: "queue_inv q [] \<Longrightarrow> try_pop q = Inr (None, q)"
  using queue_inv_empty_iff[of q "[]"] by (simp add: try_pop_def try_pop_head_def)

lemma try_pop_value_inv:
  assumes "queue_inv q ((a, v) # cs)"
  shows "\<exists>q'. try_pop_value q = Inr (Some v, q') \<and> queue_inv q' cs"
proof -
  from pop_head_inv[OF assms] obtain q1 where "pop_head q = Inr (a, q1)"
    "queue_inv (release a q1) cs"
    by blast
  then show ?thesis
    using queue_inv_empty_iff[OF assms] head_value_inv[OF assms]
    by (simp add: try_pop_value_def try_pop_head_value_def)
qed

lemma try_pop_value_empty: "queue_inv q [] \<Longrightarrow> try_pop_value q = Inr (None, q)"
  using queue_inv_empty_iff[of q "[]"] by (simp add: try_pop_value_def try_pop_head_value_def)

lemma reach_inv: "reach q ins outs \<Longrightarrow> \<exists>cs. queue_inv q cs \<and> ins = outs @ map snd cs"
proof (induction rule: reach.induct)
  case reach_new
  show ?case using queue_inv_new by fastforce
next
  case (reach_push q ins outs v q')
  then obtain cs where cs: "queue_inv q cs" "ins = outs @ map snd cs" by blast
  from push_inv[OF cs(1), of v] reach_push.hyps(2) obtain t
    where "queue_inv q' (cs @ [(t, v)])" by auto
  with cs(2) show ?case by fastforce
next
  case (reach_wait_and_pop q ins outs p q')
  then obtain cs where cs: "queue_inv q cs" "ins = outs @ map snd cs" by blast
  show ?case
  proof (cases cs)
    case Nil
    with cs(1) reach_wait_and_pop.hyps(2) show ?thesis by (simp add: wait_and_pop_empty)
  next
    case (Cons c cs')
    obtain a v where c: "c = (a, v)" by (cases c)
    from wait_and_pop_inv[of q a v cs'] cs(1) Cons c reach_wait_and_pop.hyps(2)
    have "p = Some v" "queue_inv q' cs'" by auto
    with cs(2) Cons c show ?thesis by (auto simp: handed_out_def)
  qed
next
  case (reach_wait_and_pop_value q ins outs v' q')
  then obtain cs where cs: "queue_inv q cs" "ins = outs @ map snd cs" by blast
  show ?case
  proof (cases cs)
    case Nil
    with cs(1) reach_wait_and_pop_value.hyps(2) show ?thesis
      by (simp add: wait_and_pop_value_empty)
  next
    case (Cons c cs')
    obtain a v where c: "c = (a, v)" by (cases c)
    from wait_and_pop_value_inv[of q a v cs'] cs(1) Cons c reach_wait_and_pop_value.hyps(2)
    have "v' = v" "queue_inv q' cs'" by auto
    with cs(2) Cons c show ?thesis by auto
  qed
next
  case (reach_try_pop q ins outs p q')
  then obtain cs where cs: "queue_inv q cs" "ins = outs @ map snd cs" by blast
  show ?case
  proof (cases cs)
    case Nil
    with cs reach_try_pop.hyps(2) show ?thesis
      by (auto simp: try_pop_empty handed_out_def)
  next
    case (Cons c cs')
    obtain a v where c: "c = (a, v)" by (cases c)
    from try_pop_inv[of q a v cs'] cs(1) Cons c reach_try_pop.hyps(2)
    have "p = Some v" "queue_inv q' cs'" by auto
    with cs(2) Cons c show ?thesis by (auto simp: handed_out_def)
  qed
next
  case (reach_try_pop_value q ins outs p q')
  then obtain cs where cs: "queue_inv q cs" "ins = outs @ map snd cs" by blast
  show ?case
  proof (cases cs)
    case Nil
    with cs reach_try_pop_value.hyps(2) show ?thesis
      by (auto simp: try_pop_value_empty handed_out_def)
  next
    case (Cons c cs')
    obtain a v where c: "c = (a, v)" by (cases c)
    from try_pop_value_inv[of q a v cs'] cs(1) Cons c reach_try_pop_value.hyps(2)
    have "p = Some v" "queue_inv q' cs'" by auto
    with cs(2) Cons c show ?thesis by (auto simp: handed_out_def)
  qed
qed

section \<open>Channel, handles and iterator on a well-formed queue\<close>

lemma Channel_send_inv:
  assumes "queue_inv (que ch) cs"
  shows "\<exists>t ch'. Channel_send v ch = Inr ch' \<and> queue_inv (que ch') (cs @ [(t, v)]) \<and>
     closed_flag ch' = closed_flag ch"
  using push_inv[OF assms, of v] by (auto simp: Channel_send_def)

lemma Channel_recv_inv:
  assumes "queue_inv (que ch) ((a, v) # cs)"
  shows "\<exists>ch'. Channel_recv ch = Some (Inr (Some v, ch')) \<and> queue_inv (que ch') cs \<and>
     closed_flag ch' = closed_flag ch"
  using wait_and_pop_inv[OF assms] by (auto simp: Channel_recv_def)

lemma Channel_recv_empty: "queue_inv (que ch) [] \<Longrightarrow> Channel_recv ch = None"
  by (simp add: Channel_recv_def wait_and_pop_empty)

lemma Channel_recv_has_value: "Channel_recv ch = Some (Inr (x, ch')) \<Longrightarrow> x \<noteq> None"
  by (auto simp: Channel_recv_def split: option.splits sum.splits prod.splits)

lemma Channel_try_recv_inv:
  assumes "queue_inv (que ch) ((a, v) # cs)"
  shows "\<exists>ch'. Channel_try_recv ch = Inr (Some v, ch') \<and> queue_inv (que ch') cs \<and>
     closed_flag ch' = closed_flag ch"
  using try_pop_inv[OF assms] by (auto simp: Channel_try_recv_def)

lemma Channel_try_recv_empty:
  "queue_inv (que ch) [] \<Longrightarrow> Channel_try_recv ch = Inl Null_dereference"
  by (simp add: Channel_try_recv_def try_pop_empty)

lemma Sender_send_inv:
  assumes "Sender.channel s = Some c" and "queue_inv (que (\<sigma> c)) cs"
  shows "\<exists>t \<sigma>'. Sender_send v s \<sigma> = Inr \<sigma>' \<and> queue_inv (que (\<sigma>' c)) (cs @ [(t, v)]) \<and>
     closed_flag (\<sigma>' c) = closed_flag (\<sigma> c)"
  using Channel_send_inv[OF assms(2), of v] assms(1)
  by (auto simp: Sender_send_def Sender_moved_def)

lemma Sender_close_open:
  "Sender.channel s = Some c \<Longrightarrow>
   Sender_close s \<sigma> = Inr (\<sigma>(c := Channel_close_channel (\<sigma> c)))"
  by (simp add: Sender_close_def Sender_moved_def)

lemma Receiver_closed_open:
  "Receiver.channel r = Some c \<Longrightarrow> Receiver_closed r \<sigma> = Inr (closed_flag (\<sigma> c))"
  by (simp add: Receiver_closed_def Receiver_moved_def Channel_closed_def)

lemma Receiver_recv_inv:
  assumes "Receiver.channel r = Some c" and "queue_inv (que (\<sigma> c)) ((a, v) # cs)"
  shows "\<exists>\<sigma>'. Receiver_recv r \<sigma> = Some (Inr (Some v, \<sigma>')) \<and> queue_inv (que (\<sigma>' c)) cs \<and>
     closed_flag (\<sigma>' c) = closed_flag (\<sigma> c)"
  using Channel_recv_inv[OF assms(2)] assms(1)
  by (auto simp: Receiver_recv_def Receiver_moved_def)

lemma Receiver_recv_empty:
  "Receiver.channel r = Some c \<Longrightarrow> queue_inv (que (\<sigma> c)) [] \<Longrightarrow> Receiver_recv r \<sigma> = None"
  by (simp add: Receiver_recv_def Receiver_moved_def Channel_recv_empty)

lemma Receiver_recv_has_value: "Receiver_recv r \<sigma> = Some (Inr (x, \<sigma>')) \<Longrightarrow> x \<noteq> None"
  by (auto simp: Receiver_recv_def dest: Channel_recv_has_value
      split: option.splits sum.splits prod.splits)

lemma send_all_inv:
  assumes "Sender.channel s = Some c"
  shows "queue_inv (que (\<sigma> c)) cs \<Longrightarrow>
    \<exists>\<sigma>' ds. send_all vs s \<sigma> = Inr \<sigma>' \<and> queue_inv (que (\<sigma>' c)) (cs @ ds) \<and> map snd ds = vs \<and>
      closed_flag (\<sigma>' c) = closed_flag (\<sigma> c)"
proof (induction vs arbitrary: \<sigma> cs)
  case Nil
  then show ?case by simp
next
  case (Cons v vs)
  from Sender_send_inv[where \<sigma>=\<sigma> and c=c and v=v, OF assms Cons.prems] obtain t \<sigma>1 where
    s1: "Sender_send v s \<sigma> = Inr \<sigma>1" "queue_inv (que (\<sigma>1 c)) (cs @ [(t, v)])"
    "closed_flag (\<sigma>1 c) = closed_flag (\<sigma> c)" by blast
  from Cons.IH[of \<sigma>1 "cs @ [(t, v)]"] s1(2) obtain \<sigma>' ds where
    s2: "send_all vs s \<sigma>1 = Inr \<sigma>'" "queue_inv (que (\<sigma>' c)) ((cs @ [(t, v)]) @ ds)"
    "map snd ds = vs" "closed_flag (\<sigma>' c) = closed_flag (\<sigma>1 c)" by blast
  have "send_all (v # vs) s \<sigma> = Inr \<sigma>'" using s1(1) s2(1) by simp
  moreover have "queue_inv (que (\<sigma>' c)) (cs @ (t, v) # ds)" using s2(2) by simp
  moreover have "map snd ((t, v) # ds) = v # vs" using s2(3) by simp
  ultimately show ?case using s1(3) s2(4) by metis
qed

lemma recv_n_inv:
  assumes "Receiver.channel r = Some c"
  shows "queue_inv (que (\<sigma> c)) (cs @ ds) \<Longrightarrow>
    \<exists>\<sigma>'. recv_n (length cs) r \<sigma> = Some (Inr (map Some (map snd cs), \<sigma>')) \<and>
      queue_inv (que (\<sigma>' c)) ds \<and> closed_flag (\<sigma>' c) = closed_flag (\<sigma> c)"
proof (induction cs arbitrary: \<sigma>)
  case Nil
  then show ?case by simp
next
  case (Cons e cs)
  obtain a v where e: "e = (a, v)" by (cases e)
  from Cons.prems e have "queue_inv (que (\<sigma> c)) ((a, v) # (cs @ ds))" by simp
  from Receiver_recv_inv[where \<sigma>=\<sigma> and c=c, OF assms this] obtain \<sigma>1 where
    s1: "Receiver_recv r \<sigma> = Some (Inr (Some v, \<sigma>1))" "queue_inv (que (\<sigma>1 c)) (cs @ ds)"
    "closed_flag (\<sigma>1 c) = closed_flag (\<sigma> c)" by blast
  from Cons.IH[of \<sigma>1] s1(2) obtain \<sigma>' where
    s2: "recv_n (length cs) r \<sigma>1 = Some (Inr (map Some (map snd cs), \<sigma>'))"
    "queue_inv (que (\<sigma>' c)) ds" "closed_flag (\<sigma>' c) = closed_flag (\<sigma>1 c)" by blast
  have "recv_n (length (e # cs)) r \<sigma> = Some (Inr (map Some (map snd (e # cs)), \<sigma>'))"
    using s1(1) s2(1) e by simp
  then show ?case using s2(2,3) s1(3) by metis
qed

lemma iterator_next_end: "receiver it = None \<Longrightarrow> iterator_next it \<sigma> = Some (Inr (it, \<sigma>))"
  by (simp add: iterator_next_def)

lemma iterator_next_closed:
  assumes "receiver it = Some r" and "Receiver.channel r = Some c" and "closed_flag (\<sigma> c)"
  shows "iterator_next it \<sigma> = Some (Inr (it\<lparr>receiver := None, current := None\<rparr>, \<sigma>))"
  using assms
  by (simp add: iterator_next_def next_loop.simps[of it \<sigma>] Receiver_closed_open)

lemma iterator_next_value:
  assumes "receiver it = Some r" and "Receiver.channel r = Some c" and "\<not> closed_flag (\<sigma> c)"
    and "queue_inv (que (\<sigma> c)) ((a, v) # cs)"
  shows "\<exists>\<sigma>'. iterator_next it \<sigma> = Some (Inr (it\<lparr>current := Some v\<rparr>, \<sigma>')) \<and>
     queue_inv (que (\<sigma>' c)) cs \<and> \<not> closed_flag (\<sigma>' c)"
proof -
  from Receiver_recv_inv[where \<sigma>=\<sigma> and c=c, OF assms(2,4)] obtain \<sigma>' where
    s1: "Receiver_recv r \<sigma> = Some (Inr (Some v, \<sigma>'))" "queue_inv (que (\<sigma>' c)) cs"
    "closed_flag (\<sigma>' c) = closed_flag (\<sigma> c)" by blast
  have "iterator_next it \<sigma> = Some (Inr (it\<lparr>current := Some v\<rparr>, \<sigma>'))"
    using assms(1-3) s1(1)
    by (simp add: iterator_next_def next_loop.simps[of it \<sigma>] Receiver_closed_open)
  then show ?thesis using s1(2,3) assms(3) by blast
qed

lemma iterator_next_blocks:
  assumes "receiver it = Some r" and "Receiver.channel r = Some c" and "\<not> closed_flag (\<sigma> c)"
    and "queue_inv (que (\<sigma> c)) []"
  shows "iterator_next it \<sigma> = None"
  using assms
  by (simp add: iterator_next_def next_loop.simps[of it \<sigma>] Receiver_closed_open
      Receiver_recv_empty)

lemma iter_collect_inv:
  assumes "Receiver.channel r = Some c"
  shows "receiver it = Some r \<Longrightarrow> current it = Some v0 \<Longrightarrow> \<not> closed_flag (\<sigma> c) \<Longrightarrow>
    queue_inv (que (\<sigma> c)) (cs @ ds) \<Longrightarrow>
    \<exists>\<sigma>'. iter_collect (length cs) it \<sigma> =
        Some (Inr (butlast (v0 # map snd cs), it\<lparr>current := Some (last (v0 # map snd cs))\<rparr>, \<sigma>')) \<and>
      queue_inv (que (\<sigma>' c)) ds \<and> \<not> closed_flag (\<sigma>' c)"
proof (induction cs arbitrary: it v0 \<sigma>)
  case Nil
  then show ?case by simp
next
  case (Cons e cs)
  obtain a v where e: "e = (a, v)" by (cases e)
  from Cons.prems(4) e have "queue_inv (que (\<sigma> c)) ((a, v) # (cs @ ds))" by simp
  from iterator_next_value[where \<sigma>=\<sigma> and c=c, OF Cons.prems(1) assms Cons.prems(3) this] obtain \<sigma>1 where
    s1: "iterator_next it \<sigma> = Some (Inr (it\<lparr>current := Some v\<rparr>, \<sigma>1))"
    "queue_inv (que (\<sigma>1 c)) (cs @ ds)" "\<not> closed_flag (\<sigma>1 c)" by blast
  let ?it1 = "it\<lparr>current := Some v\<rparr>"
  have "receiver ?it1 = Some r" "current ?it1 = Some v" using Cons.prems(1) by simp_all
  from Cons.IH[of ?it1 v \<sigma>1] this s1(3,2) obtain \<sigma>' where
    s2: "iter_collect (length cs) ?it1 \<sigma>1 =
        Some (Inr (butlast (v # map snd cs), ?it1\<lparr>current := Some (last (v # map snd cs))\<rparr>, \<sigma>'))"
    "queue_inv (que (\<sigma>' c)) ds" "\<not> closed_flag (\<sigma>' c)" by blast
  have "iter_collect (length (e # cs)) it \<sigma> =
        Some (Inr (butlast (v0 # map snd (e # cs)),
          it\<lparr>current := Some (last (v0 # map snd (e # cs)))\<rparr>, \<sigma>'))"
    using s1(1) s2(1) e Cons.prems(2)
    by (simp add: iterator_deref_def iterator_inc_def)
  then show ?case using s2(2,3) by blast
qed

lemma begin_closed:
  assumes "Receiver.channel r = Some c" and "closed_flag (\<sigma> c)"
  shows "Receiver_begin r \<sigma> = Some (Inr (Receiver_end, \<sigma>))"
  using assms
  by (simp add: Receiver_begin_def iterator_from_def Receiver_closed_open Receiver_end_def
      iterator_end_def)

lemma begin_value:
  assumes "Receiver.channel r = Some c" and "\<not> closed_flag (\<sigma> c)"
    and "queue_inv (que (\<sigma> c)) ((a, v) # cs)"
  shows "\<exists>\<sigma>'. Receiver_begin r \<sigma> = Some (Inr (\<lparr>receiver = Some r, current = Some v\<rparr>, \<sigma>')) \<and>
     queue_inv (que (\<sigma>' c)) cs \<and> \<not> closed_flag (\<sigma>' c)"
proof -
  let ?it = "\<lparr>receiver = Some r, current = None :: 'a option\<rparr>"
  have "receiver ?it = Some r" by simp
  from iterator_next_value[where \<sigma>=\<sigma> and c=c, OF this assms] obtain \<sigma>' where
    "iterator_next ?it \<sigma> = Some (Inr (?it\<lparr>current := Some v\<rparr>, \<sigma>'))"
    "queue_inv (que (\<sigma>' c)) cs" "\<not> closed_flag (\<sigma>' c)" by blast
  then show ?thesis using assms(1,2)
    by (simp add: Receiver_begin_def iterator_from_def Receiver_closed_open)
qed

lemma for_each_end: "for_each Receiver_end \<sigma> = Some (Inr ([], \<sigma>))"
  by (subst for_each.simps)
    (simp add: iterator_neq_def iterator_eq_def Receiver_end_def iterator_end_def)

lemma iterate_closed:
  assumes "Receiver.channel r = Some c" and "closed_flag (\<sigma> c)"
  shows "iterate r \<sigma> = Some (Inr ([], \<sigma>))"
  by (simp add: iterate_def begin_closed[where \<sigma>=\<sigma> and c=c, OF assms] for_each_end)

lemma make_channel_inv:
  "make_channel c \<sigma>0 = (tx, rx, \<sigma>) \<Longrightarrow>
   Sender.channel tx = Some c \<and> Receiver.channel rx = Some c \<and>
   queue_inv (que (\<sigma> c)) [] \<and> \<not> closed_flag (\<sigma> c)"
  by (auto simp: make_channel_def Channel_new_def queue_inv_new)

lemma run_without_send:
  "waiting s \<Longrightarrow> \<not> data_ready (que (core s)) \<Longrightarrow> \<forall>a \<in> set as. \<not> is_send a \<Longrightarrow>
   \<exists>s'. run as s = Inr s' \<and> waiting s' \<and> que (core s') = que (core s) \<and>
     (closed_flag (core s) \<or> Do_close \<in> set as) = closed_flag (core s')"
proof (induction as arbitrary: s)
  case Nil
  then show ?case by simp
next
  case (Cons a as)
  show ?case
  proof (cases a)
    case (Do_send v)
    with Cons.prems(3) show ?thesis by simp
  next
    case Do_close
    let ?s1 = "s\<lparr>core := Channel_close_channel (core s)\<rparr>"
    have "waiting ?s1" "\<not> data_ready (que (core ?s1))" "\<forall>a \<in> set as. \<not> is_send a"
      using Cons.prems by (simp_all add: Channel_close_channel_def)
    from Cons.IH[OF this] Do_close show ?thesis
      by (auto simp: Channel_close_channel_def)
  next
    case Spurious_wakeup
    have w: "wakeup s = s" using Cons.prems(1,2) by (simp add: wakeup_def)
    have "\<forall>a \<in> set as. \<not> is_send a" using Cons.prems(3) by simp
    from Cons.IH[OF Cons.prems(1,2) this] Spurious_wakeup w show ?thesis by auto
  qed
qed

lemma send_close_iterate:
  assumes "make_channel c \<sigma>0 = (tx, rx, \<sigma>)"
  shows "\<exists>\<sigma>1 \<sigma>2. send_all vs tx \<sigma> = Inr \<sigma>1 \<and> Sender_close tx \<sigma>1 = Inr \<sigma>2 \<and>
    iterate rx \<sigma>2 = Some (Inr ([], \<sigma>2))"
proof -
  from make_channel_inv[OF assms] have tx: "Sender.channel tx = Some c"
    and rx: "Receiver.channel rx = Some c" and inv: "queue_inv (que (\<sigma> c)) []"
    by simp_all
  from send_all_inv[where \<sigma>=\<sigma> and c=c and vs=vs, OF tx inv]
  obtain \<sigma>1 where s: "send_all vs tx \<sigma> = Inr \<sigma>1" by blast
  let ?\<sigma>c = "\<sigma>1(c := Channel_close_channel (\<sigma>1 c))"
  have cl: "Sender_close tx \<sigma>1 = Inr ?\<sigma>c" using tx by (rule Sender_close_open)
  have "closed_flag (?\<sigma>c c)" by (simp add: Channel_close_channel_def)
  from iterate_closed[where \<sigma>="?\<sigma>c" and c=c, OF rx this] s cl show ?thesis by blast
qed

section \<open>Closing and the blocked receiver\<close>

text \<open>A send, by contrast, ends the wait as soon as a wakeup reaches the receiver.\<close>

lemma send_then_wakeup_ends_wait:
  assumes "queue_inv (que ch) []"
  shows "\<exists>s'. run [Do_send v, Spurious_wakeup] \<lparr>core = ch, waiting = True\<rparr> = Inr s' \<and>
    \<not> waiting s'"
proof -
  from Channel_send_inv[OF assms, of v] obtain t ch' where
    "Channel_send v ch = Inr ch'" "queue_inv (que ch') ([] @ [(t, v)])" by blast
  then show ?thesis using queue_inv_ready[of "que ch'" "(t, v)" "[]"]
    by (simp add: wakeup_def)
qed

text \<open>
  C2: closing the channel does not wake a thread blocked in a blocking receive on an empty
  queue. The wait predicate reads the queue only, and \<^verbatim>\<open>close_channel\<close> leaves the queue
  as it is and notifies nobody: after the close, and after any further closes and wakeups
  (no send), the receiver is still waiting although the flag is set, and a \<^verbatim>\<open>recv\<close> on the
  closed empty channel never returns.
\<close>
theorem close_does_not_wake_blocked_receiver:
  assumes "queue_inv (que ch) []" and "\<not> list_ex is_send as"
  shows "data_ready (que (Channel_close_channel ch)) = data_ready (que ch) \<and>
    \<not> data_ready (que (Channel_close_channel ch)) \<and>
    (\<exists>s'. run (Do_close # as) \<lparr>core = ch, waiting = True\<rparr> = Inr s' \<and>
       waiting s' \<and> closed_flag (core s')) \<and>
    Channel_recv (Channel_close_channel ch) = None"
proof -
  let ?c = "Channel_close_channel ch"
  have q: "que ?c = que ch" by (simp add: Channel_close_channel_def)
  have nr: "\<not> data_ready (que ?c)" using queue_inv_not_ready[OF assms(1)] q by simp
  let ?s = "\<lparr>core = ?c, waiting = True\<rparr>"
  have "waiting ?s" "\<not> data_ready (que (core ?s))" using nr by simp_all
  moreover have "\<forall>a \<in> set as. \<not> is_send a" using assms(2) by (simp add: list_ex_iff)
  ultimately obtain s' where
    "run as ?s = Inr s'" "waiting s'" "closed_flag (core s')"
    using run_without_send[of ?s as] by (auto simp: Channel_close_channel_def)
  then have "\<exists>s'. run (Do_close # as) \<lparr>core = ch, waiting = True\<rparr> = Inr s' \<and>
       waiting s' \<and> closed_flag (core s')" by simp
  moreover have "Channel_recv ?c = None" using assms(1) q by (simp add: Channel_recv_empty)
  ultimately show ?thesis using nr q by simp
qed

theorem close_does_not_wake_blocked_receiver_witness:
  "queue_inv (que (Channel_new :: nat Channel)) [] \<and>
   \<not> list_ex is_send [Spurious_wakeup, Do_close, Spurious_wakeup :: nat action] \<and>
   (\<exists>s'. run [Do_close, Spurious_wakeup, Do_close, Spurious_wakeup]
       \<lparr>core = Channel_new :: nat Channel, waiting = True\<rparr> = Inr s' \<and>
     waiting s' \<and> closed_flag (core s')) \<and>
   Channel_recv (Channel_close_channel (Channel_new :: nat Channel)) = None"
proof -
  have h1: "queue_inv (que (Channel_new :: nat Channel)) []"
    by (simp add: Channel_new_def queue_inv_new)
  have h2: "\<not> list_ex is_send [Spurious_wakeup, Do_close, Spurious_wakeup :: nat action]"
    by simp
  show ?thesis using h1 h2 close_does_not_wake_blocked_receiver[OF h1 h2] by blast
qed

section \<open>First in, first out\<close>

text \<open>
  C3, as the code has it: strict FIFO order. On a channel buffering the values of \<open>cs\<close>,
  after the sends of \<open>vs\<close> through one producer handle, successive \<^verbatim>\<open>recv\<close> calls return
  the buffered values and then \<open>vs\<close>, in this order, each exactly once, whatever the
  closed flag; iteration (\<^verbatim>\<open>begin\<close>, then \<^verbatim>\<open>*it; ++it\<close>) yields the same sequence provided
  the channel is open.
\<close>
theorem fifo_order:
  assumes "Sender.channel tx = Some c" and "Receiver.channel rx = Some c"
    and "queue_inv (que (\<sigma> c)) cs"
  shows "\<exists>\<sigma>'. send_all vs tx \<sigma> = Inr \<sigma>' \<and>
    (\<exists>\<sigma>''. recv_n (length cs + length vs) rx \<sigma>' =
        Some (Inr (map Some (map snd cs @ vs), \<sigma>''))) \<and>
    (\<not> closed_flag (\<sigma> c) \<and> map snd cs @ vs \<noteq> [] \<longrightarrow>
      (\<exists>it0 \<sigma>0 it \<sigma>''. Receiver_begin rx \<sigma>' = Some (Inr (it0, \<sigma>0)) \<and>
         iter_collect (length cs + length vs - 1) it0 \<sigma>0 =
           Some (Inr (butlast (map snd cs @ vs), it, \<sigma>'')) \<and>
         iterator_deref it = Inr (last (map snd cs @ vs))))"
proof -
  from send_all_inv[where \<sigma>=\<sigma> and c=c and vs=vs, OF assms(1,3)] obtain \<sigma>' ds where
    s: "send_all vs tx \<sigma> = Inr \<sigma>'" "queue_inv (que (\<sigma>' c)) (cs @ ds)" "map snd ds = vs"
    "closed_flag (\<sigma>' c) = closed_flag (\<sigma> c)" by blast
  from s(2) have "queue_inv (que (\<sigma>' c)) ((cs @ ds) @ [])" by simp
  from recv_n_inv[where \<sigma>=\<sigma>' and c=c, OF assms(2) this] s(3)
  have r: "\<exists>\<sigma>''. recv_n (length cs + length vs) rx \<sigma>' =
        Some (Inr (map Some (map snd cs @ vs), \<sigma>''))"
    by (auto simp: length_map[of snd ds, symmetric] simp del: length_map)
  have i: "\<exists>it0 \<sigma>0 it \<sigma>''. Receiver_begin rx \<sigma>' = Some (Inr (it0, \<sigma>0)) \<and>
         iter_collect (length cs + length vs - 1) it0 \<sigma>0 =
           Some (Inr (butlast (map snd cs @ vs), it, \<sigma>'')) \<and>
         iterator_deref it = Inr (last (map snd cs @ vs))"
    if o: "\<not> closed_flag (\<sigma> c)" and ne: "map snd cs @ vs \<noteq> []"
  proof -
    from ne s(3) obtain a v es where es: "cs @ ds = (a, v) # es" by (cases "cs @ ds") auto
    from o s(4) have o': "\<not> closed_flag (\<sigma>' c)" by simp
    from s(2) es have "queue_inv (que (\<sigma>' c)) ((a, v) # es)" by simp
    from begin_value[where \<sigma>=\<sigma>' and c=c, OF assms(2) o' this] obtain \<sigma>0 where
      b: "Receiver_begin rx \<sigma>' = Some (Inr (\<lparr>receiver = Some rx, current = Some v\<rparr>, \<sigma>0))"
      "queue_inv (que (\<sigma>0 c)) es" "\<not> closed_flag (\<sigma>0 c)" by blast
    let ?it0 = "\<lparr>receiver = Some rx, current = Some v\<rparr>"
    have "receiver ?it0 = Some rx" "current ?it0 = Some v" by simp_all
    moreover from b(2) have "queue_inv (que (\<sigma>0 c)) (es @ [])" by simp
    ultimately obtain \<sigma>'' where
      c: "iter_collect (length es) ?it0 \<sigma>0 =
        Some (Inr (butlast (v # map snd es), ?it0\<lparr>current := Some (last (v # map snd es))\<rparr>, \<sigma>''))"
      using iter_collect_inv[where \<sigma>=\<sigma>0 and c=c and it="?it0" and ?v0.0=v and cs=es and ds="[]",
          OF assms(2)] b(3) by blast
    have m: "map snd cs @ vs = v # map snd es" using es s(3)
      by (metis list.simps(9) map_append snd_conv)
    have l: "length cs + length vs - 1 = length es"
      using arg_cong[OF m, of length] by simp
    show ?thesis using b(1) c m l by (simp add: iterator_deref_def)
  qed
  from s(1) r i show ?thesis by blast
qed

theorem fifo_order_witness:
  "Sender.channel \<lparr>Sender.channel = Some 0\<rparr> = Some 0 \<and>
   Receiver.channel \<lparr>Receiver.channel = Some 0\<rparr> = Some 0 \<and>
   queue_inv (que (example_store 0)) [] \<and> \<not> closed_flag (example_store 0) \<and>
   (\<exists>\<sigma>'. send_all [1, 2, 3] \<lparr>Sender.channel = Some 0\<rparr> example_store = Inr \<sigma>' \<and>
      (\<exists>\<sigma>''. recv_n 3 \<lparr>Receiver.channel = Some 0\<rparr> \<sigma>' = Some (Inr ([Some 1, Some 2, Some 3], \<sigma>''))) \<and>
      (\<exists>it0 \<sigma>0 it \<sigma>''. Receiver_begin \<lparr>Receiver.channel = Some 0\<rparr> \<sigma>' = Some (Inr (it0, \<sigma>0)) \<and>
         iter_collect 2 it0 \<sigma>0 = Some (Inr ([1, 2], it, \<sigma>'')) \<and>
         iterator_deref it = Inr 3))"
proof -
  have h1: "Sender.channel \<lparr>Sender.channel = Some 0\<rparr> = Some 0" by simp
  have h2: "Receiver.channel \<lparr>Receiver.channel = Some 0\<rparr> = Some 0" by simp
  have h3: "queue_inv (que (example_store 0)) []"
    by (simp add: example_store_def Channel_new_def queue_inv_new)
  have h4: "\<not> closed_flag (example_store 0)"
    by (simp add: example_store_def Channel_new_def)
  show ?thesis
    using h1 h2 h3 h4
      fifo_order[where \<sigma>=example_store and c=0 and vs="[1, 2, 3]", OF h1 h2 h3]
    by (simp add: numeral_3_eq_3 numeral_2_eq_2
        del: send_all.simps recv_n.simps iter_collect.simps)
qed

text \<open>
  C3 as it was stated, with iteration in place of \<^verbatim>\<open>recv\<close> on any channel, fails: after
  the sends of 1, 2, 3 and a close, three \<^verbatim>\<open>recv\<close> calls still return 1, 2, 3, but the
  iteration obtains no value.
\<close>
theorem iteration_of_closed_channel_counterexample:
  "three_sent_closed_received = Some (Inr [Some 1, Some 2, Some 3]) \<and>
   three_sent_closed_iterated = Some (Inr []) \<and>
   three_sent_closed_iterated \<noteq> Some (Inr [1, 2, 3])"
proof -
  obtain tx rx \<sigma> where mk: "make_channel 0 (\<lambda>_. Channel_new :: nat Channel) = (tx, rx, \<sigma>)"
    by (cases "make_channel 0 (\<lambda>_. Channel_new :: nat Channel)")
  from make_channel_inv[OF mk] have tx: "Sender.channel tx = Some 0"
    and rx: "Receiver.channel rx = Some 0" and inv: "queue_inv (que (\<sigma> 0)) []"
    by simp_all
  from send_close_iterate[OF mk, of "[1, 2, 3]"] obtain \<sigma>1 \<sigma>2 where
    s: "send_all [1, 2, 3] tx \<sigma> = Inr \<sigma>1" "Sender_close tx \<sigma>1 = Inr \<sigma>2"
    "iterate rx \<sigma>2 = Some (Inr ([], \<sigma>2))" by blast
  with mk have e: "three_sent_closed_iterated = Some (Inr [])"
    by (simp add: three_sent_closed_iterated_def del: send_all.simps)
  from send_all_inv[where \<sigma>=\<sigma> and c=0 and vs="[1, 2, 3]", OF tx inv] s(1)
  obtain ds where ds: "queue_inv (que (\<sigma>1 0)) ds" "map snd ds = [1, 2, 3]" by auto
  have \<sigma>2: "\<sigma>2 = \<sigma>1(0 := Channel_close_channel (\<sigma>1 0))"
    using s(2) Sender_close_open[OF tx, of \<sigma>1] by simp
  have "queue_inv (que (\<sigma>2 0)) (ds @ [])"
    using ds(1) by (simp add: \<sigma>2 Channel_close_channel_def)
  from recv_n_inv[where \<sigma>=\<sigma>2 and c=0, OF rx this] obtain \<sigma>3 where
    "recv_n (length ds) rx \<sigma>2 = Some (Inr (map Some (map snd ds), \<sigma>3))" by blast
  moreover have "length ds = 3" using length_map[of snd ds] ds(2) by simp
  ultimately have "recv_n 3 rx \<sigma>2 = Some (Inr ([Some 1, Some 2, Some 3], \<sigma>3))"
    using ds(2) by simp
  with mk s(1,2) have r: "three_sent_closed_received = Some (Inr [Some 1, Some 2, Some 3])"
    by (simp add: three_sent_closed_received_def del: send_all.simps recv_n.simps)
  show ?thesis unfolding e r by simp
qed

section \<open>The non-blocking receive on an empty channel\<close>

text \<open>
  C1, where the code departs from the text: \<^verbatim>\<open>try_recv\<close> on a channel with nothing
  buffered. \<^verbatim>\<open>threadsafe_queue::try_pop\<close> returns a null \<^verbatim>\<open>shared_ptr\<close> for an empty queue
  and \<^verbatim>\<open>Channel::try_recv\<close> dereferences what it gets without a test: on a new channel,
  open or closed, and through the consumer handle of \<^verbatim>\<open>make_channel\<close>, the call is a null
  dereference and not the empty optional. (With a value buffered it returns the front
  value, \<open>Channel_try_recv_inv\<close>.)
\<close>
theorem try_recv_on_empty_channel:
  "Channel_try_recv (Channel_new :: 'a Channel) = Inl Null_dereference \<and>
   Channel_try_recv (Channel_close_channel (Channel_new :: 'a Channel)) = Inl Null_dereference \<and>
   (case make_channel c (\<sigma> :: 'a store) of (tx, rx, \<sigma>') \<Rightarrow> Receiver_try_recv rx \<sigma>') =
     Inl Null_dereference"
proof -
  have e: "queue_inv (que (Channel_new :: 'a Channel)) []"
    by (simp add: Channel_new_def queue_inv_new)
  then have "queue_inv (que (Channel_close_channel (Channel_new :: 'a Channel))) []"
    by (simp add: Channel_close_channel_def)
  with e show ?thesis
    by (simp add: Channel_try_recv_empty make_channel_def Receiver_try_recv_def
        Receiver_moved_def)
qed

section \<open>Sending, also after the close\<close>

text \<open>
  C5: \<^verbatim>\<open>send\<close> succeeds in every channel state. On a well-formed queue, whatever the
  closed flag, \<^verbatim>\<open>Sender::send\<close> returns normally, appends the value behind the buffered
  ones and leaves the flag as it was; in particular a \<^verbatim>\<open>send\<close> after \<^verbatim>\<open>close\<close> enqueues
  its value and the channel stays closed.
\<close>
theorem send_succeeds_in_every_state:
  assumes "Sender.channel tx = Some c" and "queue_inv (que (\<sigma> c)) cs"
  shows "(\<exists>t \<sigma>'. Sender_send v tx \<sigma> = Inr \<sigma>' \<and> queue_inv (que (\<sigma>' c)) (cs @ [(t, v)]) \<and>
       closed_flag (\<sigma>' c) = closed_flag (\<sigma> c)) \<and>
    (\<exists>\<sigma>1 t \<sigma>2. Sender_close tx \<sigma> = Inr \<sigma>1 \<and> Sender_send v tx \<sigma>1 = Inr \<sigma>2 \<and>
       queue_inv (que (\<sigma>2 c)) (cs @ [(t, v)]) \<and> closed_flag (\<sigma>2 c))"
proof -
  let ?\<sigma>1 = "\<sigma>(c := Channel_close_channel (\<sigma> c))"
  have c1: "Sender_close tx \<sigma> = Inr ?\<sigma>1" using assms(1) by (rule Sender_close_open)
  have "queue_inv (que (?\<sigma>1 c)) cs" "closed_flag (?\<sigma>1 c)"
    using assms(2) by (simp_all add: Channel_close_channel_def)
  with Sender_send_inv[where \<sigma>="?\<sigma>1" and c=c and v=v and cs=cs, OF assms(1)] c1
  have "\<exists>\<sigma>1 t \<sigma>2. Sender_close tx \<sigma> = Inr \<sigma>1 \<and> Sender_send v tx \<sigma>1 = Inr \<sigma>2 \<and>
       queue_inv (que (\<sigma>2 c)) (cs @ [(t, v)]) \<and> closed_flag (\<sigma>2 c)"
    by metis
  with Sender_send_inv[where \<sigma>=\<sigma> and c=c and v=v, OF assms] show ?thesis by blast
qed

theorem send_succeeds_in_every_state_witness:
  "Sender.channel \<lparr>Sender.channel = Some 0\<rparr> = Some 0 \<and>
   queue_inv (que (example_store 0)) [] \<and>
   (\<exists>\<sigma>1 t \<sigma>2. Sender_close \<lparr>Sender.channel = Some 0\<rparr> example_store = Inr \<sigma>1 \<and>
       Sender_send 7 \<lparr>Sender.channel = Some 0\<rparr> \<sigma>1 = Inr \<sigma>2 \<and>
       queue_inv (que (\<sigma>2 0)) ([] @ [(t, 7)]) \<and> closed_flag (\<sigma>2 0))"
proof -
  have h1: "Sender.channel \<lparr>Sender.channel = Some 0\<rparr> = Some 0" by simp
  have h2: "queue_inv (que (example_store 0)) []"
    by (simp add: example_store_def Channel_new_def queue_inv_new)
  show ?thesis
    using h1 h2
      send_succeeds_in_every_state[where \<sigma>=example_store and c=0 and v=7, OF h1 h2]
    by blast
qed

section \<open>Handles that have been moved from\<close>

text \<open>
  C6: on a producer or consumer handle that has been moved from, every public operation
  (\<^verbatim>\<open>send\<close>, \<^verbatim>\<open>close\<close>, \<^verbatim>\<open>closed\<close>, \<^verbatim>\<open>recv\<close>, \<^verbatim>\<open>try_recv\<close>) throws the \<^verbatim>\<open>std::logic_error\<close>
  of its handle type, in every store, and returns nothing.
\<close>
theorem moved_handle_raises:
  "Sender_send v (snd (Sender_move s)) \<sigma> = Inl (Logic_error ''Sender has been moved.'') \<and>
   Sender_close (snd (Sender_move s)) \<sigma> = Inl (Logic_error ''Sender has been moved.'') \<and>
   Sender_closed (snd (Sender_move s)) \<sigma> = Inl (Logic_error ''Sender has been moved.'') \<and>
   Receiver_recv (snd (Receiver_move r)) \<sigma> =
     Some (Inl (Logic_error ''Receiver has been moved.'')) \<and>
   Receiver_try_recv (snd (Receiver_move r)) \<sigma> = Inl (Logic_error ''Receiver has been moved.'') \<and>
   Receiver_closed (snd (Receiver_move r)) \<sigma> = Inl (Logic_error ''Receiver has been moved.'')"
  by (simp add: Sender_move_def Receiver_move_def Sender_moved_def Receiver_moved_def
      Sender_send_def Sender_close_def Sender_closed_def Receiver_recv_def
      Receiver_try_recv_def Receiver_closed_def)

section \<open>The iterator\<close>

text \<open>
  C7: when the channel is already closed at the moment an iterator is constructed from
  the consumer handle, the iterator is at the end position at once (its pointer is
  null, it compares equal to \<^verbatim>\<open>end()\<close>) and the store is returned as it was: no receive
  took place, whatever the queue holds.
\<close>
theorem begin_on_closed_channel_is_end:
  assumes "Receiver.channel rx = Some c" and "closed_flag (\<sigma> c)"
  shows "\<exists>it. Receiver_begin rx \<sigma> = Some (Inr (it, \<sigma>)) \<and> receiver it = None \<and>
    iterator_eq it Receiver_end"
  using begin_closed[where \<sigma>=\<sigma> and c=c, OF assms]
  by (simp add: iterator_eq_def Receiver_end_def iterator_end_def)

theorem begin_on_closed_channel_is_end_witness:
  "Receiver.channel \<lparr>Receiver.channel = Some 0\<rparr> = Some 0 \<and>
   closed_flag ((example_store(0 := Channel_close_channel (example_store 0))) 0) \<and>
   (\<exists>it. Receiver_begin \<lparr>Receiver.channel = Some 0\<rparr>
        (example_store(0 := Channel_close_channel (example_store 0))) =
        Some (Inr (it, example_store(0 := Channel_close_channel (example_store 0)))) \<and>
      receiver it = None \<and> iterator_eq it Receiver_end)"
proof -
  have h1: "Receiver.channel \<lparr>Receiver.channel = Some 0\<rparr> = Some 0" by simp
  have h2: "closed_flag ((example_store(0 := Channel_close_channel (example_store 0))) 0)"
    by (simp add: Channel_close_channel_def)
  show ?thesis
    using h1 h2
      begin_on_closed_channel_is_end[
        where \<sigma>="example_store(0 := Channel_close_channel (example_store 0))" and c=0,
        OF h1 h2]
    by blast
qed

text \<open>
  C8: \<^verbatim>\<open>operator==\<close> is true exactly when both iterators are at the end position;
  \<^verbatim>\<open>operator!=\<close> is its negation; an iterator that is not at the end is not even equal
  to itself.
\<close>
theorem iterator_equality:
  "iterator_eq it other = (receiver it = None \<and> receiver other = None) \<and>
   iterator_neq it other = (\<not> iterator_eq it other) \<and>
   \<not> iterator_eq \<lparr>receiver = Some r, current = x\<rparr> \<lparr>receiver = Some r, current = x\<rparr> \<and>
   iterator_eq (Receiver_end :: 'a iterator) Receiver_end"
  by (simp add: iterator_eq_def iterator_neq_def Receiver_end_def iterator_end_def)

section \<open>The queue invariant in every reachable state\<close>

text \<open>
  C9: in every state reached from the constructor by \<^verbatim>\<open>push\<close>, \<^verbatim>\<open>wait_and_pop\<close> and
  \<^verbatim>\<open>try_pop\<close> (both overloads of each), \<^verbatim>\<open>head\<close> and \<^verbatim>\<open>tail\<close> are non-null, the dummy node
  at \<^verbatim>\<open>tail\<close> is allocated, \<^verbatim>\<open>tail\<close> is reached from \<^verbatim>\<open>head\<close> along \<^verbatim>\<open>next\<close> through
  cells at pairwise different addresses, \<^verbatim>\<open>head == tail\<close> exactly when nothing is
  buffered, and the values pushed so far are the values handed out so far followed by
  the buffered ones: nothing is lost, duplicated or reordered.
\<close>
theorem queue_invariant:
  assumes "reach q ins outs"
  shows "\<exists>a t n cs. head q = Some a \<and> tail q = Some t \<and> node_at (nodes q) t = Some n \<and>
    seg (nodes q) a cs t \<and> distinct (map fst cs) \<and> queue_inv q cs \<and>
    (head q = tail q) = (cs = []) \<and> empty_queue q = (cs = []) \<and>
    ins = outs @ map snd cs"
proof -
  from reach_inv[OF assms] obtain cs where cs: "queue_inv q cs" "ins = outs @ map snd cs"
    by blast
  from cs(1) obtain a t where "head q = Some a" "tail q = Some t"
    "node_at (nodes q) t = Some \<lparr>data = None, nxt = None\<rparr>" "seg (nodes q) a cs t"
    "distinct (map fst cs)"
    by (auto simp: queue_inv_def split: option.splits)
  moreover have "(head q = tail q) = (cs = [])"
    using queue_inv_empty_iff[OF cs(1)] by (simp add: get_tail_def)
  ultimately show ?thesis using cs by (auto simp: empty_queue_def get_tail_def)
qed

theorem queue_invariant_witness:
  "reach example_queue [7] [] \<and>
   (\<exists>a t n cs. head example_queue = Some a \<and> tail example_queue = Some t \<and>
      node_at (nodes example_queue) t = Some n \<and>
      seg (nodes example_queue) a cs t \<and> distinct (map fst cs) \<and>
      queue_inv example_queue cs \<and>
      (head example_queue = tail example_queue) = (cs = []) \<and>
      empty_queue example_queue = (cs = []) \<and>
      [7] = [] @ map snd cs)"
proof -
  have p: "push 7 threadsafe_queue_new = Inr example_queue"
    by (simp add: push_def threadsafe_queue_new_def new_node_def node_at_def
        example_queue_def)
  have h: "reach example_queue [7] []" using reach_push[OF reach_new p] by simp
  show ?thesis by (rule conjI[OF h queue_invariant[OF h]])
qed

section \<open>The blocking receive\<close>

text \<open>
  C10: whenever \<^verbatim>\<open>recv\<close> returns (through the handle or on the core), the optional it
  returns holds a value; on an empty queue, open or closed, it does not return at all.
\<close>
theorem recv_returns_a_value_or_never:
  assumes "Receiver_recv r \<sigma> = Some (Inr (x, \<sigma>'))" and "Channel_recv ch = Some (Inr (y, ch'))"
    and "queue_inv (que e) []"
  shows "x \<noteq> None \<and> y \<noteq> None \<and> Channel_recv e = None \<and>
    Channel_recv (Channel_close_channel e) = None"
proof -
  have "queue_inv (que (Channel_close_channel e)) []"
    using assms(3) by (simp add: Channel_close_channel_def)
  moreover have "x \<noteq> None" using assms(1) by (rule Receiver_recv_has_value)
  moreover have "y \<noteq> None" using assms(2) by (rule Channel_recv_has_value)
  ultimately show ?thesis using assms(3) by (simp add: Channel_recv_empty)
qed


theorem recv_returns_a_value_or_never_witness:
  "Receiver_recv \<lparr>Receiver.channel = Some 0\<rparr>
     (example_store(0 := \<lparr>que = \<lparr>nodes = [Some \<lparr>data = Some 7, nxt = Some 1\<rparr>,
                                         Some \<lparr>data = None, nxt = None\<rparr>],
                                head = Some 0, tail = Some 1\<rparr>, closed_flag = True\<rparr>)) =
     Some (Inr (Some 7,
       example_store(0 := \<lparr>que = \<lparr>nodes = [None, Some \<lparr>data = None, nxt = None\<rparr>],
                                  head = Some 1, tail = Some 1\<rparr>, closed_flag = True\<rparr>))) \<and>
   Channel_recv \<lparr>que = \<lparr>nodes = [Some \<lparr>data = Some 7, nxt = Some 1\<rparr>,
                                Some \<lparr>data = None, nxt = None\<rparr>],
                       head = Some 0, tail = Some 1\<rparr>, closed_flag = True\<rparr> =
     Some (Inr (Some (7 :: nat),
       \<lparr>que = \<lparr>nodes = [None, Some \<lparr>data = None, nxt = None\<rparr>],
               head = Some 1, tail = Some 1\<rparr>, closed_flag = True\<rparr>)) \<and>
   queue_inv (que (Channel_new :: nat Channel)) [] \<and>
   Some (7 :: nat) \<noteq> None \<and>
   Channel_recv (Channel_new :: nat Channel) = None \<and>
   Channel_recv (Channel_close_channel (Channel_new :: nat Channel)) = None"
proof -
  let ?q = "\<lparr>nodes = [Some \<lparr>data = Some (7 :: nat), nxt = Some 1\<rparr>, Some \<lparr>data = None, nxt = None\<rparr>],
          head = Some 0, tail = Some 1\<rparr>"
  have h2: "Channel_recv \<lparr>que = ?q, closed_flag = True\<rparr> =
     Some (Inr (Some 7, \<lparr>que = \<lparr>nodes = [None, Some \<lparr>data = None, nxt = None\<rparr>],
               head = Some 1, tail = Some 1\<rparr>, closed_flag = True\<rparr>))"
    by (simp add: Channel_recv_def wait_and_pop_def wait_pop_head_def wait_for_data_ready
        data_ready_def get_tail_def pop_head_def node_at_def release_def)
  have h1: "Receiver_recv \<lparr>Receiver.channel = Some 0\<rparr>
     (example_store(0 := \<lparr>que = ?q, closed_flag = True\<rparr>)) =
     Some (Inr (Some 7,
       example_store(0 := \<lparr>que = \<lparr>nodes = [None, Some \<lparr>data = None, nxt = None\<rparr>],
                                  head = Some 1, tail = Some 1\<rparr>, closed_flag = True\<rparr>)))"
    by (simp add: Receiver_recv_def Receiver_moved_def Channel_recv_def wait_and_pop_def
        wait_pop_head_def wait_for_data_ready data_ready_def get_tail_def pop_head_def
        node_at_def release_def)
  have h3: "queue_inv (que (Channel_new :: nat Channel)) []"
    by (simp add: Channel_new_def queue_inv_new)
  show ?thesis
    using h1 h2 h3 recv_returns_a_value_or_never[OF h1 h2 h3] by simp
qed

section \<open>Five values, a close, and the iteration\<close>

lemma five_cells:
  assumes "map snd ds = [v1, v2, v3, v4, v5]"
  obtains a es where "ds = (a, v1) # es" and "map snd es = [v2, v3, v4, v5]"
    and "length es = 4"
proof -
  from assms obtain d es where d: "ds = d # es" by (cases ds) auto
  with assms have "snd d = v1" "map snd es = [v2, v3, v4, v5]" by auto
  moreover from this(2) have "length es = 4"
    using length_map[of snd es] by simp
  ultimately show ?thesis using d that[of "fst d" es] by auto
qed

text \<open>
  C4, as the code has it: on a new channel into which five values have been sent,
  iteration while the channel is open yields the five values in send order; when the
  channel is closed after the fifth value has been fetched, the next increment reaches
  the end position. When the channel is closed before the iteration starts, the loop
  over \<^verbatim>\<open>begin()\<close> and \<^verbatim>\<open>end()\<close> ends at once and yields none of the five values.
\<close>
theorem iteration_until_close:
  "case make_channel c \<sigma>0 of (tx, rx, \<sigma>) \<Rightarrow>
     (\<exists>\<sigma>1. send_all [v1, v2, v3, v4, v5] tx \<sigma> = Inr \<sigma>1 \<and>
        (\<exists>it0 \<sigma>2 it4 \<sigma>3 \<sigma>4.
           Receiver_begin rx \<sigma>1 = Some (Inr (it0, \<sigma>2)) \<and>
           iter_collect 4 it0 \<sigma>2 = Some (Inr ([v1, v2, v3, v4], it4, \<sigma>3)) \<and>
           iterator_deref it4 = Inr v5 \<and> iterator_neq it4 Receiver_end \<and>
           Sender_close tx \<sigma>3 = Inr \<sigma>4 \<and>
           iterator_inc it4 \<sigma>4 = Some (Inr (Receiver_end, \<sigma>4))) \<and>
        (\<exists>\<sigma>2. Sender_close tx \<sigma>1 = Inr \<sigma>2 \<and> iterate rx \<sigma>2 = Some (Inr ([], \<sigma>2))))"
proof -
  obtain tx rx \<sigma> where mk: "make_channel c \<sigma>0 = (tx, rx, \<sigma>)" by (cases "make_channel c \<sigma>0")
  from make_channel_inv[OF mk] have tx: "Sender.channel tx = Some c"
    and rx: "Receiver.channel rx = Some c" and inv: "queue_inv (que (\<sigma> c)) []"
    and op: "\<not> closed_flag (\<sigma> c)" by simp_all
  from send_all_inv[where \<sigma>=\<sigma> and c=c and vs="[v1, v2, v3, v4, v5]", OF tx inv]
  obtain \<sigma>1 ds where s: "send_all [v1, v2, v3, v4, v5] tx \<sigma> = Inr \<sigma>1"
    "queue_inv (que (\<sigma>1 c)) ds" "map snd ds = [v1, v2, v3, v4, v5]"
    "closed_flag (\<sigma>1 c) = closed_flag (\<sigma> c)" by auto
  from s(3) obtain a es where es: "ds = (a, v1) # es" "map snd es = [v2, v3, v4, v5]"
    "length es = 4" by (rule five_cells)
  from op s(4) have op1: "\<not> closed_flag (\<sigma>1 c)" by simp
  from s(2) es(1) have "queue_inv (que (\<sigma>1 c)) ((a, v1) # es)" by simp
  from begin_value[where \<sigma>=\<sigma>1 and c=c, OF rx op1 this] obtain \<sigma>2 where
    b: "Receiver_begin rx \<sigma>1 = Some (Inr (\<lparr>receiver = Some rx, current = Some v1\<rparr>, \<sigma>2))"
    "queue_inv (que (\<sigma>2 c)) es" "\<not> closed_flag (\<sigma>2 c)" by blast
  let ?it0 = "\<lparr>receiver = Some rx, current = Some v1\<rparr>"
  let ?it4 = "\<lparr>receiver = Some rx, current = Some v5\<rparr>"
  have "receiver ?it0 = Some rx" "current ?it0 = Some v1" by simp_all
  moreover from b(2) have "queue_inv (que (\<sigma>2 c)) (es @ [])" by simp
  ultimately obtain \<sigma>3 where
    "iter_collect (length es) ?it0 \<sigma>2 =
        Some (Inr (butlast (v1 # map snd es), ?it0\<lparr>current := Some (last (v1 # map snd es))\<rparr>, \<sigma>3))"
    using iter_collect_inv[where \<sigma>=\<sigma>2 and c=c and it="?it0" and ?v0.0=v1 and cs=es and ds="[]",
        OF rx] b(3) by blast
  then have col: "iter_collect 4 ?it0 \<sigma>2 = Some (Inr ([v1, v2, v3, v4], ?it4, \<sigma>3))"
    using es(2,3) by simp
  let ?\<sigma>4 = "\<sigma>3(c := Channel_close_channel (\<sigma>3 c))"
  have cl: "Sender_close tx \<sigma>3 = Inr ?\<sigma>4" using tx by (rule Sender_close_open)
  have "receiver ?it4 = Some rx" by simp
  moreover have "closed_flag (?\<sigma>4 c)" by (simp add: Channel_close_channel_def)
  ultimately have "iterator_next ?it4 ?\<sigma>4 =
      Some (Inr (?it4\<lparr>receiver := None, current := None\<rparr>, ?\<sigma>4))"
    using iterator_next_closed[where \<sigma>="?\<sigma>4" and c=c and it="?it4", OF _ rx] by blast
  then have inc: "iterator_inc ?it4 ?\<sigma>4 = Some (Inr (Receiver_end, ?\<sigma>4))"
    by (simp add: iterator_inc_def Receiver_end_def iterator_end_def)
  have d: "iterator_deref ?it4 = Inr v5" "iterator_neq ?it4 Receiver_end"
    by (simp_all add: iterator_deref_def iterator_neq_def iterator_eq_def)
  from send_close_iterate[OF mk, of "[v1, v2, v3, v4, v5]"] s(1)
  have it: "\<exists>\<sigma>2. Sender_close tx \<sigma>1 = Inr \<sigma>2 \<and> iterate rx \<sigma>2 = Some (Inr ([], \<sigma>2))"
    by auto
  have "\<exists>it0 \<sigma>2 it4 \<sigma>3 \<sigma>4.
           Receiver_begin rx \<sigma>1 = Some (Inr (it0, \<sigma>2)) \<and>
           iter_collect 4 it0 \<sigma>2 = Some (Inr ([v1, v2, v3, v4], it4, \<sigma>3)) \<and>
           iterator_deref it4 = Inr v5 \<and> iterator_neq it4 Receiver_end \<and>
           Sender_close tx \<sigma>3 = Inr \<sigma>4 \<and>
           iterator_inc it4 \<sigma>4 = Some (Inr (Receiver_end, \<sigma>4))"
    using b(1) col d cl inc by blast
  with it show ?thesis using mk s(1) by simp
qed

text \<open>
  C4 as it was stated fails: five values sent, then the close, then the iteration, and
  the loop body sees no value at all.
\<close>
theorem iteration_after_close_counterexample:
  "five_sent_then_closed = Some (Inr []) \<and>
   five_sent_then_closed \<noteq> Some (Inr [1, 2, 3, 4, 5])"
proof -
  obtain tx rx \<sigma> where mk: "make_channel 0 (\<lambda>_. Channel_new :: nat Channel) = (tx, rx, \<sigma>)"
    by (cases "make_channel 0 (\<lambda>_. Channel_new :: nat Channel)")
  from send_close_iterate[OF mk, of "[1, 2, 3, 4, 5]"] obtain \<sigma>1 \<sigma>2 where
    "send_all [1, 2, 3, 4, 5] tx \<sigma> = Inr \<sigma>1" "Sender_close tx \<sigma>1 = Inr \<sigma>2"
    "iterate rx \<sigma>2 = Some (Inr ([], \<sigma>2))" by blast
  with mk have e: "five_sent_then_closed = Some (Inr [])"
    by (simp add: five_sent_then_closed_def del: send_all.simps)
  show ?thesis unfolding e by simp
qed

end
